theory Spec2Isabelle
  imports Complex_Main "HOL-Library.Monad_Syntax" "HOL-Library.Multiset"
begin

section \<open>The benchmark harness and the Valkey client cache\<close>

text \<open>
  A shallow embedding of the measurement core of the scale benchmark (statistics, bounded
  executor, suite aggregator) and of the cached Valkey client of the rate-limiter service.

  A JavaScript \<open>number\<close> holding a latency or a success rate is a \<^typ>\<open>real\<close>: sums and
  means of durations are exact. The rank of a percentile, which selects an element, is
  computed with the rounding of binary64. Throughput values, which the source computes
  with divisions whose divisor can be zero, have their own type with the non-finite
  values written out.
\<close>

subsection \<open>Statistics module\<close>

text \<open>
  The fields \<open>min\<close> and \<open>max\<close> of the source are \<open>min_ms\<close> and \<open>max_ms\<close> here.
\<close>

record LatencyStats =
  min_ms :: real
  avg :: real
  p50 :: real
  p95 :: real
  p99 :: real
  max_ms :: real

text \<open>
  Reading \<open>xs[i]\<close> in JavaScript gives \<open>undefined\<close> outside the array: that is \<open>None\<close>.
\<close>

definition array_get :: "'a list \<Rightarrow> int \<Rightarrow> 'a option" where
  "array_get xs i = (if 0 \<le> i \<and> i < int (length xs) then Some (xs ! nat i) else None)"

text \<open>
  The rank of \<open>percentile\<close> is computed in binary64: the quotient \<open>p / 100\<close> and its product
  with the length are each rounded to the nearest double, ties to even. \<open>binade\<close> is the
  exponent \<open>e\<close> with \<open>2^e \<le> a < 2^(e+1)\<close>, and \<open>fl53\<close> rounds a real to 53 significant bits.
  The exponent range of binary64 is not modelled, since it does not change the element
  read: where the quotient or the product underflows, the index is \<open>0\<close> with and without
  underflow, and where the product overflows, the index is outside the array either way.
\<close>

function binade :: "real \<Rightarrow> int" where
  "binade a =
     (if a \<le> 0 then 0
      else if 2 \<le> a then binade (a / 2) + 1
      else if a < 1 then binade (a * 2) - 1
      else 0)"
  by pat_completeness auto
termination
proof (relation "measure (\<lambda>a. if 1 \<le> a then nat \<lfloor>log 2 a\<rfloor> else nat \<lceil>- log 2 a\<rceil>)")
  show "wf (measure (\<lambda>a. if 1 \<le> a then nat \<lfloor>log 2 a\<rfloor> else nat \<lceil>- log 2 a\<rceil>))"
    by simp
next
  fix a :: real
  assume "\<not> a \<le> 0" "2 \<le> a"
  then have "log 2 (a / 2) = log 2 a - 1" "1 \<le> log 2 a"
    by (simp_all add: log_divide le_log_iff)
  then show "(a / 2, a) \<in> measure (\<lambda>a. if 1 \<le> a then nat \<lfloor>log 2 a\<rfloor> else nat \<lceil>- log 2 a\<rceil>)"
    using \<open>2 \<le> a\<close> by simp
next
  fix a :: real
  assume a: "\<not> a \<le> 0" "\<not> 2 \<le> a" "a < 1"
  then have l: "log 2 (a * 2) = log 2 a + 1" "log 2 a < 0"
    by (simp_all add: log_mult)
  show "(a * 2, a) \<in> measure (\<lambda>a. if 1 \<le> a then nat \<lfloor>log 2 a\<rfloor> else nat \<lceil>- log 2 a\<rceil>)"
  proof (cases "1 \<le> a * 2")
    case True
    then have "a * 2 < 2" using a by simp
    then have "log 2 (a * 2) < 1" using True by (simp add: log_less_iff)
    moreover have "0 \<le> log 2 (a * 2)" using True by (simp add: le_log_iff)
    ultimately have "\<lfloor>log 2 (a * 2)\<rfloor> = 0" by linarith
    moreover have "0 < \<lceil>- log 2 a\<rceil>" using l(2) by linarith
    ultimately show ?thesis using True a by simp
  next
    case False
    then show ?thesis using a l by simp
  qed
qed

declare binade.simps [simp del]

definition round_ties_even :: "real \<Rightarrow> int" where
  "round_ties_even y =
     (let f = \<lfloor>y\<rfloor>; r = y - of_int f
      in if r < 1 / 2 then f
         else if 1 / 2 < r then f + 1
         else if even f then f else f + 1)"

definition fl53 :: "real \<Rightarrow> real" where
  "fl53 x =
     (if x = 0 then 0
      else let q = 2 powi (binade \<bar>x\<bar> - 52)
           in of_int (round_ties_even (x / q)) * q)"

text \<open>
  \<open>percentile\<close> copies the array, sorts the copy with the comparator \<open>a - b\<close> (ascending)
  and reads one element of it. \<open>p\<close> is the value of a finite double and the length of an
  array is below \<open>2^32\<close>, so both enter the arithmetic exactly; \<open>Math.ceil\<close> and the
  subtraction of \<open>1\<close> are exact wherever the index is inside the array.
\<close>

definition percentile :: "real list \<Rightarrow> real \<Rightarrow> real option" where
  "percentile arr p =
     (if length arr = 0 then Some 0
      else let sorted = sort arr;
               idx = \<lceil>fl53 (fl53 (p / 100) * real (length sorted))\<rceil> - 1
           in array_get sorted (max 0 idx))"

text \<open>
  \<open>Math.min(...xs)\<close> and \<open>Math.max(...xs)\<close> on a spread with first element \<open>x\<close>. Every
  call of the source is behind a guard that makes the spread non-empty.
\<close>

definition math_min :: "real \<Rightarrow> real list \<Rightarrow> real" where
  "math_min x xs = fold min xs x"

definition math_max :: "real \<Rightarrow> real list \<Rightarrow> real" where
  "math_max x xs = fold max xs x"

text \<open>
  The result is \<open>None\<close> when one of the percentile fields would be \<open>undefined\<close>.
\<close>

definition computeLatencyStats :: "real list \<Rightarrow> LatencyStats option" where
  "computeLatencyStats latencies =
     (case latencies of
        [] \<Rightarrow> Some \<lparr>min_ms = 0, avg = 0, p50 = 0, p95 = 0, p99 = 0, max_ms = 0\<rparr>
      | x # rest \<Rightarrow>
          do {
            q50 \<leftarrow> percentile latencies 50;
            q95 \<leftarrow> percentile latencies 95;
            q99 \<leftarrow> percentile latencies 99;
            Some \<lparr>min_ms = math_min x rest,
                  avg = foldl (+) 0 latencies / real (length latencies),
                  p50 = q50, p95 = q95, p99 = q99,
                  max_ms = math_max x rest\<rparr>
          })"

text \<open>The index that \<open>percentile\<close> reads, for an array of \<open>n\<close> elements.\<close>

definition rank_index :: "nat \<Rightarrow> real \<Rightarrow> int" where
  "rank_index n p = max 0 (\<lceil>fl53 (fl53 (p / 100) * real n)\<rceil> - 1)"


subsection \<open>Throughput numbers\<close>

text \<open>
  A JavaScript number that can be non-finite. The arithmetic below is the IEEE arithmetic
  of JavaScript on these four kinds of value, without rounding and without the sign of
  zero: a zero divisor is \<open>+0\<close>, as a count or an elapsed time is.
\<close>

datatype number = Num real | PosInf | NegInf | NaN

fun js_add :: "number \<Rightarrow> number \<Rightarrow> number" where
  "js_add NaN _ = NaN"
| "js_add _ NaN = NaN"
| "js_add PosInf NegInf = NaN"
| "js_add NegInf PosInf = NaN"
| "js_add PosInf _ = PosInf"
| "js_add _ PosInf = PosInf"
| "js_add NegInf _ = NegInf"
| "js_add _ NegInf = NegInf"
| "js_add (Num a) (Num b) = Num (a + b)"

fun js_neg :: "number \<Rightarrow> number" where
  "js_neg (Num a) = Num (- a)"
| "js_neg PosInf = NegInf"
| "js_neg NegInf = PosInf"
| "js_neg NaN = NaN"

definition js_sub :: "number \<Rightarrow> number \<Rightarrow> number" where
  "js_sub a b = js_add a (js_neg b)"

text \<open>
  The sign of a value, and the infinity of a given sign (\<open>NaN\<close> for sign \<open>0\<close>, as in
  \<open>Infinity * 0\<close>).
\<close>

fun js_sign :: "number \<Rightarrow> int" where
  "js_sign (Num a) = (if a = 0 then 0 else if 0 < a then 1 else - 1)"
| "js_sign PosInf = 1"
| "js_sign NegInf = - 1"
| "js_sign NaN = 0"

definition signed_inf :: "int \<Rightarrow> number" where
  "signed_inf s = (if s = 0 then NaN else if 0 < s then PosInf else NegInf)"

fun js_mul :: "number \<Rightarrow> number \<Rightarrow> number" where
  "js_mul NaN _ = NaN"
| "js_mul _ NaN = NaN"
| "js_mul (Num a) (Num b) = Num (a * b)"
| "js_mul a b = signed_inf (js_sign a * js_sign b)"

fun js_div :: "number \<Rightarrow> number \<Rightarrow> number" where
  "js_div NaN _ = NaN"
| "js_div _ NaN = NaN"
| "js_div (Num a) (Num b) = (if b = 0 then signed_inf (js_sign (Num a)) else Num (a / b))"
| "js_div (Num a) _ = Num 0"
| "js_div a (Num b) = (if b = 0 then a else signed_inf (js_sign a * js_sign (Num b)))"
| "js_div _ _ = NaN"

text \<open>
  \<open>Math.round\<close> rounds to the nearest integer, halves upwards; \<open>Math.sqrt\<close>;
  \<open>Math.pow(v, 2)\<close>.
\<close>

fun js_round :: "number \<Rightarrow> number" where
  "js_round (Num a) = Num (of_int \<lfloor>a + 1 / 2\<rfloor>)"
| "js_round a = a"

fun js_sqrt :: "number \<Rightarrow> number" where
  "js_sqrt (Num a) = (if a < 0 then NaN else Num (sqrt a))"
| "js_sqrt PosInf = PosInf"
| "js_sqrt _ = NaN"

fun js_square :: "number \<Rightarrow> number" where
  "js_square (Num a) = Num (a * a)"
| "js_square NaN = NaN"
| "js_square _ = PosInf"

text \<open>
  \<open>stdDev\<close> is only applied to throughput samples. \<open>arr.reduce((a, b) => a + b, 0)\<close> is
  a left fold from \<open>0\<close>.
\<close>

definition stdDev :: "number list \<Rightarrow> number" where
  "stdDev arr =
     (if length arr = 0 then Num 0
      else let avg = js_div (foldl js_add (Num 0) arr) (Num (real (length arr)));
               squareDiffs = map (\<lambda>v. js_square (js_sub v avg)) arr
           in js_sqrt (js_div (foldl js_add (Num 0) squareDiffs) (Num (real (length arr)))))"

subsection \<open>Benchmark results and configuration\<close>

text \<open>
  \<open>iterations\<close> and \<open>runs\<close> are integers. Of \<open>CONFIG\<close> only the two fields read by the
  executor and the aggregator are kept.
\<close>

record BenchmarkResult =
  name :: string
  iterations :: int
  runs :: int
  avgOpsPerSecond :: number
  opsPerSecondStdDev :: number
  latency :: LatencyStats
  successRate :: real
  errors :: "string list"

record CONFIG =
  concurrency :: int
  suiteRuns :: int

subsection \<open>Suite aggregator\<close>

text \<open>
  The aggregator has no \<open>throw\<close> of its own. It fails where JavaScript does: reading
  \<open>.map\<close> of \<open>allSuiteResults[0]\<close> on an empty list, and reading a property of a
  result that \<open>suite.find\<close> did not find (the \<open>!\<close> after \<open>find\<close> is erased at run time).
  Both are a \<open>TypeError\<close>.
\<close>

datatype js_error = TypeError

text \<open>
  \<open>[...new Set(xs)]\<close> keeps the first occurrence of every element, in order.
\<close>

definition insert_new :: "string list \<Rightarrow> string \<Rightarrow> string list" where
  "insert_new seen e = (if e \<in> set seen then seen else seen @ [e])"

definition unique_in_order :: "string list \<Rightarrow> string list" where
  "unique_in_order xs = foldl insert_new [] xs"

text \<open>
  The callback of \<open>operationNames.map\<close>: the aggregated record of one operation name.
  \<open>resultsForOp\<close> holds, for every suite, the first result of that name; \<open>those\<close> is
  \<open>None\<close> when some suite has none.
\<close>

definition aggregateOperation ::
    "CONFIG \<Rightarrow> BenchmarkResult list list \<Rightarrow> string \<Rightarrow> js_error + BenchmarkResult" where
  "aggregateOperation cfg allSuiteResults nm =
     (case those (map (find (\<lambda>r. name r = nm)) allSuiteResults) of
        None \<Rightarrow> Inl TypeError
      | Some [] \<Rightarrow> Inl TypeError
      | Some (r0 # rs) \<Rightarrow>
          let resultsForOp = r0 # rs;
              allOps = map avgOpsPerSecond resultsForOp;
              allSuccessRates = map successRate resultsForOp;
              allErrors = concat (map errors resultsForOp);
              avgLatency = (\<lambda>field.
                 foldl (\<lambda>sum r. sum + field (latency r)) 0 resultsForOp
                   / real (length resultsForOp))
          in Inr \<lparr>name = nm,
                  iterations = iterations r0 * suiteRuns cfg,
                  runs = runs r0 * suiteRuns cfg,
                  avgOpsPerSecond =
                    js_round (js_div (foldl js_add (Num 0) allOps) (Num (real (length allOps)))),
                  opsPerSecondStdDev = js_round (stdDev allOps),
                  latency =
                    \<lparr>min_ms = math_min (min_ms (latency r0)) (map (\<lambda>r. min_ms (latency r)) rs),
                     avg = avgLatency avg,
                     p50 = avgLatency p50,
                     p95 = avgLatency p95,
                     p99 = avgLatency p99,
                     max_ms = math_max (max_ms (latency r0)) (map (\<lambda>r. max_ms (latency r)) rs)\<rparr>,
                  successRate = foldl (+) 0 allSuccessRates / real (length allSuccessRates),
                  errors = take 5 (unique_in_order allErrors)\<rparr>)"

text \<open>
  \<open>Array.prototype.map\<close> with a callback that can throw: the first exception ends the map.
\<close>

fun map_throwing :: "('a \<Rightarrow> js_error + 'b) \<Rightarrow> 'a list \<Rightarrow> js_error + 'b list" where
  "map_throwing f [] = Inr []"
| "map_throwing f (x # xs) =
     (case f x of
        Inl e \<Rightarrow> Inl e
      | Inr y \<Rightarrow> (case map_throwing f xs of Inl e \<Rightarrow> Inl e | Inr ys \<Rightarrow> Inr (y # ys)))"

definition aggregateResults ::
    "CONFIG \<Rightarrow> BenchmarkResult list list \<Rightarrow> js_error + BenchmarkResult list" where
  "aggregateResults cfg allSuiteResults =
     (case allSuiteResults of
        [] \<Rightarrow> Inl TypeError
      | suite0 # _ \<Rightarrow>
          let operationNames = map name suite0
          in map_throwing (aggregateOperation cfg allSuiteResults) operationNames)"

subsection \<open>Bounded executor\<close>

text \<open>
  An operation is a function from the invocation index to the outcome its promise is
  fulfilled with. Every index is invoked once, so this covers operations with state of
  their own; promises that are rejected or never settled are outside the model.

  What the event loop decides is a parameter: which operations in flight settle during
  one 10 ms poll of the admission loop and in which order, in which order the rest settles
  at \<open>await Promise.all\<close>, and the elapsed time \<open>performance.now() - startTime\<close> of each
  run.
\<close>

record OperationOutcome =
  success :: bool
  durationMs :: real
  error :: "string option"

record Environment =
  settlesDuringPoll :: "nat \<Rightarrow> int list \<Rightarrow> int list"
  settlesAtAwaitAll :: "int \<Rightarrow> int list \<Rightarrow> int list"
  measuredDurationMs :: "int \<Rightarrow> real"

text \<open>
  The variables of \<open>runBenchmark\<close>: those of the whole call, those of the current run
  (\<open>semaphoreCount\<close> is \<open>semaphore.count\<close>), and three that the source does not have:
  the operations in flight, the number of polls so far, and the indices of the settled
  operations in the order their callbacks ran.
\<close>

record ExecState =
  allLatencies :: "real list"
  allOps :: "number list"
  errorList :: "string list"
  totalSuccess :: int
  totalAttempts :: int
  latencies :: "real list"
  runSuccess :: int
  semaphoreCount :: int
  inFlight :: "int list"
  polls :: nat
  settled :: "int list"

text \<open>
  \<open>if (result.error && !errors.includes(result.error)) errors.push(result.error)\<close>: a
  missing error and the empty string are falsy.
\<close>

definition recordError :: "string list \<Rightarrow> string option \<Rightarrow> string list" where
  "recordError errs e =
     (case e of
        None \<Rightarrow> errs
      | Some msg \<Rightarrow> if msg \<noteq> [] \<and> msg \<notin> set errs then errs @ [msg] else errs)"

text \<open>
  The \<open>then\<close> callback of one operation.
\<close>

definition onSettled :: "(int \<Rightarrow> OperationOutcome) \<Rightarrow> int \<Rightarrow> ExecState \<Rightarrow> ExecState" where
  "onSettled operation idx st =
     (let result = operation idx
      in st\<lparr>latencies := latencies st @ [durationMs result],
            runSuccess := (if success result then runSuccess st + 1 else runSuccess st),
            errorList := (if success result then errorList st
                          else recordError (errorList st) (error result)),
            semaphoreCount := semaphoreCount st - 1,
            inFlight := remove1 idx (inFlight st),
            settled := settled st @ [idx]\<rparr>)"

text \<open>
  The callbacks of the operations the event loop reports as settled, in that order. An
  index that is not in flight is ignored.
\<close>

fun deliver :: "(int \<Rightarrow> OperationOutcome) \<Rightarrow> int list \<Rightarrow> ExecState \<Rightarrow> ExecState" where
  "deliver operation [] st = st"
| "deliver operation (idx # rest) st =
     deliver operation rest
       (if idx \<in> set (inFlight st) then onSettled operation idx st else st)"

text \<open>
  \<open>while (semaphore.count >= CONFIG.concurrency) await new Promise(r => setTimeout(r, 10))\<close>.
  The loop need not end: \<open>None\<close> is a loop that polls forever.
\<close>

partial_function (option) waitForSlot ::
    "CONFIG \<Rightarrow> Environment \<Rightarrow> (int \<Rightarrow> OperationOutcome) \<Rightarrow> ExecState \<Rightarrow> ExecState option" where
  "waitForSlot cfg env operation st =
     (if semaphoreCount st \<ge> concurrency cfg
      then waitForSlot cfg env operation
             (deliver operation (settlesDuringPoll env (polls st) (inFlight st))
                (st\<lparr>polls := polls st + 1\<rparr>))
      else Some st)"

text \<open>
  The body of \<open>for (let i = 0; i < iterations; i++)\<close>, over the remaining values of \<open>i\<close>.
\<close>

fun launch ::
    "CONFIG \<Rightarrow> Environment \<Rightarrow> (int \<Rightarrow> OperationOutcome) \<Rightarrow> int \<Rightarrow> int \<Rightarrow> int list \<Rightarrow>
     ExecState \<Rightarrow> ExecState option" where
  "launch cfg env operation iters run [] st = Some st"
| "launch cfg env operation iters run (i # rest) st =
     (case waitForSlot cfg env operation st of
        None \<Rightarrow> None
      | Some st' \<Rightarrow>
          launch cfg env operation iters run rest
            (st'\<lparr>semaphoreCount := semaphoreCount st' + 1,
                 inFlight := inFlight st' @ [i + run * iters]\<rparr>))"

text \<open>
  \<open>await Promise.all(promises)\<close>: everything still in flight settles, first in the order the
  event loop gives, then whatever that order left out.
\<close>

definition awaitAll :: "Environment \<Rightarrow> (int \<Rightarrow> OperationOutcome) \<Rightarrow> int \<Rightarrow> ExecState \<Rightarrow> ExecState" where
  "awaitAll env operation run st =
     (let st' = deliver operation (settlesAtAwaitAll env run (inFlight st)) st
      in deliver operation (inFlight st') st')"

text \<open>
  One iteration of \<open>for (let run = 0; run < runs; run++)\<close>.
\<close>

definition oneRun ::
    "CONFIG \<Rightarrow> Environment \<Rightarrow> (int \<Rightarrow> OperationOutcome) \<Rightarrow> int \<Rightarrow> int \<Rightarrow>
     ExecState \<Rightarrow> ExecState option" where
  "oneRun cfg env operation iters run st =
     (case launch cfg env operation iters run [0 .. iters - 1]
             (st\<lparr>latencies := [], runSuccess := 0, semaphoreCount := 0, inFlight := []\<rparr>) of
        None \<Rightarrow> None
      | Some st1 \<Rightarrow>
          let st2 = awaitAll env operation run st1;
              durationMs = measuredDurationMs env run;
              ops = js_round (js_mul (js_div (Num (of_int iters)) (Num durationMs)) (Num 1000))
          in Some (st2\<lparr>allOps := allOps st2 @ [ops],
                        allLatencies := allLatencies st2 @ latencies st2,
                        totalSuccess := totalSuccess st2 + runSuccess st2,
                        totalAttempts := totalAttempts st2 + iters\<rparr>))"

fun runLoop ::
    "CONFIG \<Rightarrow> Environment \<Rightarrow> (int \<Rightarrow> OperationOutcome) \<Rightarrow> int \<Rightarrow> int list \<Rightarrow>
     ExecState \<Rightarrow> ExecState option" where
  "runLoop cfg env operation iters [] st = Some st"
| "runLoop cfg env operation iters (run # rest) st =
     (case oneRun cfg env operation iters run st of
        None \<Rightarrow> None
      | Some st' \<Rightarrow> runLoop cfg env operation iters rest st')"

definition initialState :: ExecState where
  "initialState =
     \<lparr>allLatencies = [], allOps = [], errorList = [], totalSuccess = 0, totalAttempts = 0,
      latencies = [], runSuccess = 0, semaphoreCount = 0, inFlight = [], polls = 0,
      settled = []\<rparr>"

text \<open>
  The returned object. It is \<open>None\<close> when a percentile field would be \<open>undefined\<close>.
\<close>

definition benchmarkResult :: "string \<Rightarrow> int \<Rightarrow> int \<Rightarrow> ExecState \<Rightarrow> BenchmarkResult option" where
  "benchmarkResult nm iters nruns st =
     do {
       q50 \<leftarrow> percentile (allLatencies st) 50;
       q95 \<leftarrow> percentile (allLatencies st) 95;
       q99 \<leftarrow> percentile (allLatencies st) 99;
       Some \<lparr>name = nm,
             iterations = iters,
             runs = nruns,
             avgOpsPerSecond =
               js_round (js_div (foldl js_add (Num 0) (allOps st)) (Num (of_int nruns))),
             opsPerSecondStdDev = js_round (stdDev (allOps st)),
             latency =
               \<lparr>min_ms = (case allLatencies st of [] \<Rightarrow> 0 | x # xs \<Rightarrow> math_min x xs),
                avg = (if length (allLatencies st) \<noteq> 0
                       then foldl (+) 0 (allLatencies st) / real (length (allLatencies st))
                       else 0),
                p50 = q50, p95 = q95, p99 = q99,
                max_ms = (case allLatencies st of [] \<Rightarrow> 0 | x # xs \<Rightarrow> math_max x xs)\<rparr>,
             successRate =
               (if totalAttempts st > 0
                then real_of_int (totalSuccess st) / real_of_int (totalAttempts st) * 100
                else 0),
             errors = take 5 (errorList st)\<rparr>
     }"

text \<open>
  \<open>runBenchmark\<close> is \<open>None\<close> when its promise never settles.
\<close>

definition runBenchmark ::
    "CONFIG \<Rightarrow> Environment \<Rightarrow> string \<Rightarrow> int \<Rightarrow> int \<Rightarrow> (int \<Rightarrow> OperationOutcome) \<Rightarrow>
     BenchmarkResult option" where
  "runBenchmark cfg env nm iters nruns operation =
     (case runLoop cfg env operation iters [0 .. nruns - 1] initialState of
        None \<Rightarrow> None
      | Some st \<Rightarrow> benchmarkResult nm iters nruns st)"

subsection \<open>Cached Valkey client\<close>













subsection \<open>Sample data and reference statistics\<close>

text \<open>
  A result of a suite, with a given operation name and throughput.
\<close>

definition sampleResult :: "string \<Rightarrow> real \<Rightarrow> BenchmarkResult" where
  "sampleResult nm ops =
     \<lparr>name = nm, iterations = 300, runs = 5,
      avgOpsPerSecond = Num ops, opsPerSecondStdDev = Num 0,
      latency = \<lparr>min_ms = 1, avg = 2, p50 = 2, p95 = 3, p99 = 3, max_ms = 4\<rparr>,
      successRate = 100, errors = []\<rparr>"

text \<open>
  The arithmetic mean and the population standard deviation of a list of reals, as the
  specification words them.
\<close>

definition spec_mean :: "real list \<Rightarrow> real" where
  "spec_mean xs = sum_list xs / real (length xs)"

definition spec_stdDev :: "real list \<Rightarrow> real" where
  "spec_stdDev xs = sqrt (sum_list (map (\<lambda>x. (x - spec_mean xs)\<^sup>2) xs) / real (length xs))"

text \<open>
  An event loop that lets the oldest operation in flight settle at every poll, with runs
  that take 200 ms; an operation that always fails with a given message.
\<close>

definition oldestFirst :: Environment where
  "oldestFirst =
     \<lparr>settlesDuringPoll = (\<lambda>t inflight. take 1 inflight),
      settlesAtAwaitAll = (\<lambda>run inflight. inflight),
      measuredDurationMs = (\<lambda>run. 200)\<rparr>"

definition failingWith :: "string \<Rightarrow> int \<Rightarrow> OperationOutcome" where
  "failingWith msg i = \<lparr>success = False, durationMs = 50, error = Some msg\<rparr>"

text \<open>
  The invocation indices of a whole call, run after run, and the messages that the failing
  outcomes of a sequence of invocations carry: those that are present and non-empty, and
  all those that are present.
\<close>

definition invocations :: "int \<Rightarrow> int \<Rightarrow> int list" where
  "invocations iters nruns =
     concat (map (\<lambda>run. map (\<lambda>i. i + run * iters) [0 .. iters - 1]) [0 .. nruns - 1])"

definition truthyMessage :: "OperationOutcome \<Rightarrow> string list" where
  "truthyMessage result =
     (case error result of
        None \<Rightarrow> []
      | Some msg \<Rightarrow> if \<not> success result \<and> msg \<noteq> [] then [msg] else [])"

definition failureMessages :: "(int \<Rightarrow> OperationOutcome) \<Rightarrow> int list \<Rightarrow> string list" where
  "failureMessages operation idxs = concat (map (\<lambda>i. truthyMessage (operation i)) idxs)"

definition anyMessage :: "OperationOutcome \<Rightarrow> string list" where
  "anyMessage result =
     (case error result of
        None \<Rightarrow> []
      | Some msg \<Rightarrow> if \<not> success result then [msg] else [])"

definition allFailureMessages :: "(int \<Rightarrow> OperationOutcome) \<Rightarrow> int list \<Rightarrow> string list" where
  "allFailureMessages operation idxs = concat (map (\<lambda>i. anyMessage (operation i)) idxs)"

text \<open>
  An event loop is live when every poll of the admission loop sees at least one of the
  operations in flight settle.
\<close>

definition live :: "Environment \<Rightarrow> bool" where
  "live env = (\<forall>t inflight. inflight \<noteq> [] \<longrightarrow>
                 (\<exists>i \<in> set inflight. i \<in> set (settlesDuringPoll env t inflight)))"

section \<open>Properties\<close>

subsection \<open>Rounding to binary64\<close>

lemma binade_bounds:
  "0 < a \<Longrightarrow> 2 powi (binade a) \<le> a \<and> a < 2 powi (binade a + 1)"
proof (induction a rule: binade.induct)
  case (1 a)
  show ?case
  proof (cases "2 \<le> a")
    case True
    then have b: "binade a = binade (a / 2) + 1"
      using "1.prems" by (subst binade.simps) simp
    have "2 powi (binade (a / 2)) \<le> a / 2 \<and> a / 2 < 2 powi (binade (a / 2) + 1)"
      using "1.IH"(1) "1.prems" True by simp
    then show ?thesis
      unfolding b by (simp add: power_int_add field_simps)
  next
    case False
    show ?thesis
    proof (cases "a < 1")
      case True
      then have b: "binade a = binade (a * 2) - 1"
        using "1.prems" False by (subst binade.simps) simp
      have "2 powi (binade (a * 2)) \<le> a * 2 \<and> a * 2 < 2 powi (binade (a * 2) + 1)"
        using "1.IH"(2) "1.prems" False True by simp
      then show ?thesis
        unfolding b by (simp add: power_int_add power_int_diff field_simps)
    next
      case notless: False
      then have "binade a = 0"
        using "1.prems" False by (subst binade.simps) simp
      then show ?thesis using False notless by simp
    qed
  qed
qed

lemma round_ties_even_error: "\<bar>of_int (round_ties_even y) - y\<bar> \<le> 1 / 2"
  unfolding round_ties_even_def Let_def by (auto; linarith)

lemma round_ties_even_le: "y \<le> of_int k \<Longrightarrow> round_ties_even y \<le> k"
  unfolding round_ties_even_def Let_def by (auto; linarith)

lemma round_ties_even_ge: "of_int k \<le> y \<Longrightarrow> k \<le> round_ties_even y"
  unfolding round_ties_even_def Let_def by (auto; linarith)

lemma fl53_error:
  "\<bar>fl53 x - x\<bar> \<le> \<bar>x\<bar> / 2 ^ 53"
proof (cases "x = 0")
  case True
  then show ?thesis by (simp add: fl53_def)
next
  case False
  define e where "e = binade \<bar>x\<bar>"
  define q :: real where "q = 2 powi (e - 52)"
  have qpos: "0 < q" by (simp add: q_def)
  have lo: "2 powi e \<le> \<bar>x\<bar>"
    using binade_bounds[of "\<bar>x\<bar>"] False by (simp add: e_def)
  have fl: "fl53 x = of_int (round_ties_even (x / q)) * q"
    using False by (simp add: fl53_def Let_def q_def e_def)
  have "fl53 x - x = (of_int (round_ties_even (x / q)) - x / q) * q"
    using qpos by (simp add: fl left_diff_distrib)
  then have "\<bar>fl53 x - x\<bar> = \<bar>of_int (round_ties_even (x / q)) - x / q\<bar> * q"
    using qpos by (simp add: abs_mult)
  also have "\<dots> \<le> 1 / 2 * q"
    using round_ties_even_error[of "x / q"] qpos by (intro mult_right_mono) simp_all
  also have "\<dots> = 2 powi e / 2 ^ 53"
    by (simp add: q_def power_int_diff)
  also have "\<dots> \<le> \<bar>x\<bar> / 2 ^ 53"
    using lo by (simp add: divide_right_mono)
  finally show ?thesis .
qed

lemma fl53_upper: "0 \<le> x \<Longrightarrow> fl53 x \<le> x * (1 + 1 / 2 ^ 53)"
proof -
  assume "0 \<le> x"
  then have "fl53 x - x \<le> x / 2 ^ 53"
    using fl53_error[of x] by linarith
  then show ?thesis by (simp add: distrib_left)
qed

lemma fl53_lower: "0 \<le> x \<Longrightarrow> x * (1 - 1 / 2 ^ 53) \<le> fl53 x"
proof -
  assume "0 \<le> x"
  then have "x - fl53 x \<le> x / 2 ^ 53"
    using fl53_error[of x] by linarith
  then show ?thesis by (simp add: right_diff_distrib)
qed

lemma fl53_nonpos: "x \<le> 0 \<Longrightarrow> fl53 x \<le> 0"
proof (cases "x = 0")
  case True
  then show ?thesis by (simp add: fl53_def)
next
  case False
  assume "x \<le> 0"
  define q :: real where "q = 2 powi (binade \<bar>x\<bar> - 52)"
  have qpos: "0 < q" by (simp add: q_def)
  have "x / q \<le> of_int 0" using \<open>x \<le> 0\<close> qpos by (simp add: divide_nonpos_pos)
  then have "round_ties_even (x / q) \<le> 0" by (rule round_ties_even_le)
  then have "of_int (round_ties_even (x / q)) * q \<le> 0"
    using qpos by (simp add: mult_nonpos_nonneg)
  then show ?thesis using False by (simp add: fl53_def Let_def q_def)
qed

lemma fl53_nonneg: "0 \<le> x \<Longrightarrow> 0 \<le> fl53 x"
proof -
  assume x: "0 \<le> x"
  have "0 \<le> x * (1 - 1 / 2 ^ 53)"
    using x by (intro mult_nonneg_nonneg) simp_all
  also have "\<dots> \<le> fl53 x" using x by (rule fl53_lower)
  finally show ?thesis .
qed

lemma integer_over_quantum:
  assumes "e \<le> 52"
  shows "\<exists>k :: int. real n / 2 powi (e - 52) = of_int k"
proof -
  define m where "m = nat (52 - e)"
  have "e - 52 = - int m" using assms by (simp add: m_def)
  then have "(2 :: real) powi (e - 52) = inverse (2 ^ m)"
    by (simp only: power_int_minus power_int_of_nat)
  then have "real n / 2 powi (e - 52) = real n * 2 ^ m"
    by (simp only: divide_inverse inverse_inverse_eq)
  also have "\<dots> = of_int (int n * 2 ^ m)" by simp
  finally show ?thesis by blast
qed

lemma fl53_le_integer:
  assumes "0 < n" "n \<le> 2 ^ 53" "x \<le> real n"
  shows "fl53 x \<le> real n"
proof (cases "x \<le> 0")
  case True
  then have "fl53 x \<le> 0" by (rule fl53_nonpos)
  then show ?thesis by simp
next
  case False
  then have xpos: "0 < x" by simp
  define e where "e = binade \<bar>x\<bar>"
  define q :: real where "q = 2 powi (e - 52)"
  have qpos: "0 < q" by (simp add: q_def)
  have lo: "2 powi e \<le> x"
    using binade_bounds[of "\<bar>x\<bar>"] xpos by (simp add: e_def)
  have fl: "fl53 x = of_int (round_ties_even (x / q)) * q"
    using xpos by (simp add: fl53_def Let_def q_def e_def)
  have n53: "real n \<le> 2 ^ 53"
    using assms(2) by (metis of_nat_le_iff of_nat_numeral of_nat_power)
  have "2 powi e \<le> (2 :: real) powi 53"
    using lo assms(3) n53 by simp
  then have e53: "e \<le> 53"
    using power_int_le_imp_le_exp[of "2 :: real" e 53] by simp
  obtain k :: int where k: "real n / q = of_int k"
  proof (cases "e \<le> 52")
    case True
    then show ?thesis using integer_over_quantum[of e n] that by (auto simp: q_def)
  next
    case False
    with e53 have e: "e = 53" by simp
    then have "real n = 2 ^ 53"
      using lo assms(3) n53 by simp
    then have "real n / q = of_int (2 ^ 52)"
      by (simp add: q_def e)
    then show ?thesis using that by blast
  qed
  have "x / q \<le> real n / q"
    using assms(3) qpos by (simp add: divide_right_mono)
  then have "round_ties_even (x / q) \<le> k"
    unfolding k by (rule round_ties_even_le)
  then have "of_int (round_ties_even (x / q)) * q \<le> of_int k * q"
    using qpos by simp
  also have "\<dots> = real n" using k qpos by (simp add: field_simps)
  finally show ?thesis by (simp add: fl)
qed

lemma fl53_half: "fl53 (1 / 2) = 1 / 2"
  by (simp add: fl53_def binade.simps round_ties_even_def Let_def)

lemma fl53_95: "fl53 (19 / 20) = 8556839292003942 / 2 ^ 53"
  by (simp add: fl53_def binade.simps round_ties_even_def Let_def)

lemma fl53_99: "fl53 (99 / 100) = 8917127262193582 / 2 ^ 53"
  by (simp add: fl53_def binade.simps round_ties_even_def Let_def)

subsection \<open>Percentiles and latency statistics\<close>

lemma rank_index_nonneg: "0 \<le> rank_index n p"
  by (simp add: rank_index_def)

lemma rank_index_le:
  assumes "fl53 (fl53 (p / 100) * real n) \<le> fl53 (fl53 (q / 100) * real n)"
  shows "rank_index n p \<le> rank_index n q"
proof -
  have "\<lceil>fl53 (fl53 (p / 100) * real n)\<rceil> \<le> \<lceil>fl53 (fl53 (q / 100) * real n)\<rceil>"
    using assms by (rule ceiling_mono)
  then show ?thesis by (simp add: rank_index_def)
qed

lemma rank_index_less:
  assumes "0 < n" "fl53 (fl53 (p / 100) * real n) \<le> real n"
  shows "rank_index n p < int n"
proof -
  have "\<lceil>fl53 (fl53 (p / 100) * real n)\<rceil> \<le> \<lceil>real n\<rceil>"
    using assms(2) by (rule ceiling_mono)
  then have "\<lceil>fl53 (fl53 (p / 100) * real n)\<rceil> \<le> int n" by simp
  with assms(1) show ?thesis by (simp add: rank_index_def)
qed

lemma scaled_rounding_le:
  assumes "a * (1 + 1 / 2 ^ 53) \<le> b * (1 - 1 / 2 ^ 53)" "0 \<le> a" "0 \<le> b"
  shows "fl53 (a * real n) \<le> fl53 (b * real n)"
proof -
  have "fl53 (a * real n) \<le> a * real n * (1 + 1 / 2 ^ 53)"
    using assms(2) by (intro fl53_upper) simp
  also have "\<dots> = a * (1 + 1 / 2 ^ 53) * real n" by simp
  also have "\<dots> \<le> b * (1 - 1 / 2 ^ 53) * real n"
    using assms(1) by (intro mult_right_mono) simp_all
  also have "\<dots> = b * real n * (1 - 1 / 2 ^ 53)" by simp
  also have "\<dots> \<le> fl53 (b * real n)"
    using assms(3) by (intro fl53_lower) simp
  finally show ?thesis .
qed

lemma rank_50_le_95: "rank_index n 50 \<le> rank_index n 95"
  by (intro rank_index_le scaled_rounding_le) (simp_all add: fl53_half fl53_95)

lemma rank_95_le_99: "rank_index n 95 \<le> rank_index n 99"
  by (intro rank_index_le scaled_rounding_le) (simp_all add: fl53_95 fl53_99)

lemma rank_99_less: "0 < n \<Longrightarrow> rank_index n 99 < int n"
proof (rule rank_index_less)
  have "fl53 (fl53 (99 / 100) * real n) \<le> fl53 (99 / 100) * real n * (1 + 1 / 2 ^ 53)"
    by (intro fl53_upper) (simp add: fl53_99)
  also have "\<dots> = fl53 (99 / 100) * (1 + 1 / 2 ^ 53) * real n" by simp
  also have "\<dots> \<le> 1 * real n"
    by (intro mult_right_mono) (simp_all add: fl53_99)
  finally show "fl53 (fl53 (99 / 100) * real n) \<le> real n" by simp
qed

lemma rank_index_nat_less: "rank_index n p < int n \<Longrightarrow> nat (rank_index n p) < n"
  using rank_index_nonneg[of n p] by linarith

lemma percentile_rank:
  "arr \<noteq> [] \<Longrightarrow> percentile arr p = array_get (sort arr) (rank_index (length arr) p)"
  by (simp add: percentile_def rank_index_def Let_def)

lemma percentile_in_range:
  assumes "arr \<noteq> []" "rank_index (length arr) p < int (length arr)"
  shows "percentile arr p = Some (sort arr ! nat (rank_index (length arr) p))"
  using assms rank_index_nonneg[of "length arr" p]
  by (simp add: percentile_rank array_get_def)

lemma percentile_member:
  assumes "arr \<noteq> []" "rank_index (length arr) p < int (length arr)"
  shows "sort arr ! nat (rank_index (length arr) p) \<in> set arr"
proof -
  have "nat (rank_index (length arr) p) < length (sort arr)"
    using rank_index_nat_less[OF assms(2)] by simp
  then have "sort arr ! nat (rank_index (length arr) p) \<in> set (sort arr)" by (rule nth_mem)
  then show ?thesis by simp
qed

lemma standard_ranks:
  assumes "0 < n"
  shows "rank_index n 50 < int n" "rank_index n 95 < int n" "rank_index n 99 < int n"
  using rank_99_less[OF assms] rank_50_le_95[of n] rank_95_le_99[of n] by linarith+

lemma math_min_le: "v \<in> set (x # xs) \<Longrightarrow> math_min x xs \<le> v"
  unfolding math_min_def Min.set_eq_fold[symmetric] by (rule Min_le) simp_all

lemma math_max_ge: "v \<in> set (x # xs) \<Longrightarrow> v \<le> math_max x xs"
  unfolding math_max_def Max.set_eq_fold[symmetric] by (rule Max_ge) simp_all

text \<open>
  Claim C1. On the empty sample set \<open>computeLatencyStats\<close> returns the record with all six
  fields \<open>0\<close>. On every non-empty sample set it returns a record (no field is undefined)
  with \<open>min \<le> p50 \<le> p95 \<le> p99 \<le> max\<close>.
\<close>

theorem computeLatencyStats_ordered:
  "computeLatencyStats [] = Some \<lparr>min_ms = 0, avg = 0, p50 = 0, p95 = 0, p99 = 0, max_ms = 0\<rparr> \<and>
   (samples \<noteq> [] \<longrightarrow>
      (\<exists>s. computeLatencyStats samples = Some s \<and>
           min_ms s \<le> p50 s \<and> p50 s \<le> p95 s \<and> p95 s \<le> p99 s \<and> p99 s \<le> max_ms s))"
proof (intro conjI impI)
  show "computeLatencyStats [] = Some \<lparr>min_ms = 0, avg = 0, p50 = 0, p95 = 0, p99 = 0, max_ms = 0\<rparr>"
    by (simp add: computeLatencyStats_def)
next
  assume ne: "samples \<noteq> []"
  then obtain x rest where xr: "samples = x # rest" by (cases samples) auto
  define n where "n = length samples"
  have npos: "0 < n" using ne by (simp add: n_def)
  define a where "a = sort samples ! nat (rank_index n 50)"
  define b where "b = sort samples ! nat (rank_index n 95)"
  define c where "c = sort samples ! nat (rank_index n 99)"
  have pa: "percentile samples 50 = Some a"
    unfolding a_def n_def using ne standard_ranks(1)[OF npos] by (intro percentile_in_range) (simp_all add: n_def)
  have pb: "percentile samples 95 = Some b"
    unfolding b_def n_def using ne standard_ranks(2)[OF npos] by (intro percentile_in_range) (simp_all add: n_def)
  have pc: "percentile samples 99 = Some c"
    unfolding c_def n_def using ne standard_ranks(3)[OF npos] by (intro percentile_in_range) (simp_all add: n_def)
  let ?s = "\<lparr>min_ms = math_min x rest,
             avg = foldl (+) 0 samples / real (length samples),
             p50 = a, p95 = b, p99 = c, max_ms = math_max x rest\<rparr>"
  have eq: "computeLatencyStats samples = Some ?s"
    using pa pb pc by (simp add: computeLatencyStats_def xr)
  have "a \<in> set samples"
    unfolding a_def n_def using ne standard_ranks(1)[OF npos] by (intro percentile_member) (simp_all add: n_def)
  then have 1: "math_min x rest \<le> a" unfolding xr by (rule math_min_le)
  have lc: "nat (rank_index n 99) < length (sort samples)"
    using rank_index_nat_less[OF standard_ranks(3)[OF npos]] by (simp add: n_def)
  have 2: "a \<le> b"
    unfolding a_def b_def using rank_50_le_95[of n] lc rank_95_le_99[of n]
    by (intro sorted_nth_mono) simp_all
  have 3: "b \<le> c"
    unfolding b_def c_def using lc rank_95_le_99[of n]
    by (intro sorted_nth_mono) simp_all
  have "c \<in> set samples"
    unfolding c_def n_def using ne standard_ranks(3)[OF npos] by (intro percentile_member) (simp_all add: n_def)
  then have 4: "c \<le> math_max x rest" unfolding xr by (rule math_max_ge)
  show "\<exists>s. computeLatencyStats samples = Some s \<and>
           min_ms s \<le> p50 s \<and> p50 s \<le> p95 s \<and> p95 s \<le> p99 s \<and> p99 s \<le> max_ms s"
    using eq 1 2 3 4 by (intro exI[of _ ?s]) simp
qed

theorem computeLatencyStats_ordered_witness:
  "[30, 10, 20] \<noteq> ([] :: real list) \<and>
   computeLatencyStats [30, 10, 20] =
     Some \<lparr>min_ms = 10, avg = 20, p50 = 20, p95 = 30, p99 = 30, max_ms = 30\<rparr> \<and>
   (\<exists>s. computeLatencyStats [30, 10, 20] = Some s \<and>
        min_ms s \<le> p50 s \<and> p50 s \<le> p95 s \<and> p95 s \<le> p99 s \<and> p99 s \<le> max_ms s)"
  using computeLatencyStats_ordered[of "[30, 10, 20]"]
  by (simp add: computeLatencyStats_def percentile_def array_get_def math_min_def math_max_def
      fl53_def binade.simps round_ties_even_def Let_def)

lemma rank_index_in_array:
  assumes "0 < n" "n \<le> 2 ^ 53" "p \<le> 100"
  shows "rank_index n p < int n"
proof (rule rank_index_less[OF assms(1)])
  have "fl53 (p / 100) \<le> real 1"
    using assms(3) by (intro fl53_le_integer) simp_all
  then have "fl53 (p / 100) * real n \<le> 1 * real n"
    by (intro mult_right_mono) simp_all
  then have "fl53 (p / 100) * real n \<le> real n" by simp
  with assms(1,2) show "fl53 (fl53 (p / 100) * real n) \<le> real n"
    by (intro fl53_le_integer)
qed

text \<open>The rounded rank is less than one away from the exact rank.\<close>

lemma rounded_rank_close:
  assumes "0 \<le> p" "p \<le> 100" "n \<le> 2 ^ 32"
  shows "\<bar>fl53 (fl53 (p / 100) * real n) - p / 100 * real n\<bar> < 1"
proof -
  define u :: real where "u = 1 / 2 ^ 53"
  define x where "x = p / 100"
  define d where "d = fl53 x"
  have x: "0 \<le> x" "x \<le> 1" using assms by (simp_all add: x_def)
  have n: "real n \<le> 2 ^ 32"
    using assms(3) by (metis of_nat_le_iff of_nat_numeral of_nat_power)
  have d0: "0 \<le> d" unfolding d_def using x(1) by (rule fl53_nonneg)
  have dx: "\<bar>d - x\<bar> \<le> x * u"
    using fl53_error[of x] x(1) by (simp add: d_def u_def)
  then have d1: "d \<le> 1 + u"
  proof -
    have "d \<le> x + x * u" using dx by linarith
    also have "\<dots> \<le> 1 + 1 * u" using x by (intro add_mono mult_right_mono) (simp_all add: u_def)
    finally show ?thesis by simp
  qed
  have "\<bar>fl53 (d * real n) - d * real n\<bar> \<le> d * real n * u"
    using fl53_error[of "d * real n"] d0 by (simp add: u_def abs_mult)
  also have "\<dots> \<le> (1 + u) * 2 ^ 32 * u"
    using d0 d1 n by (intro mult_right_mono mult_mono) (simp_all add: u_def)
  finally have e1: "\<bar>fl53 (d * real n) - d * real n\<bar> \<le> (1 + u) * 2 ^ 32 * u" .
  have "\<bar>d * real n - x * real n\<bar> = \<bar>d - x\<bar> * real n"
    by (simp add: left_diff_distrib[symmetric] abs_mult)
  also have "\<dots> \<le> x * u * real n"
    using dx by (intro mult_right_mono) simp_all
  also have "\<dots> \<le> 1 * u * 2 ^ 32"
    using x n by (intro mult_mono) (simp_all add: u_def)
  finally have e2: "\<bar>d * real n - x * real n\<bar> \<le> u * 2 ^ 32" by simp
  have "\<bar>fl53 (d * real n) - x * real n\<bar> \<le> (1 + u) * 2 ^ 32 * u + u * 2 ^ 32"
    using e1 e2 by linarith
  also have "\<dots> < 1" by (simp add: u_def)
  finally show ?thesis by (simp add: d_def x_def)
qed

lemma rank_index_close:
  assumes "0 \<le> p" "p \<le> 100" "n \<le> 2 ^ 32"
  shows "\<bar>rank_index n p - max 0 (\<lceil>p / 100 * real n\<rceil> - 1)\<bar> \<le> 1"
proof -
  define m where "m = fl53 (fl53 (p / 100) * real n)"
  define v where "v = p / 100 * real n"
  have c: "\<bar>m - v\<bar> < 1"
    unfolding m_def v_def using assms by (rule rounded_rank_close)
  have "\<lceil>m\<rceil> \<le> \<lceil>v + 1\<rceil>" using c by (intro ceiling_mono) linarith
  moreover have "\<lceil>v\<rceil> \<le> \<lceil>m + 1\<rceil>" using c by (intro ceiling_mono) linarith
  ultimately have "\<bar>\<lceil>m\<rceil> - \<lceil>v\<rceil>\<bar> \<le> 1" by simp
  then show ?thesis
    by (simp add: rank_index_def m_def v_def)
qed

lemma quarter_list_sorted:
  "sort [1, 2, 3, 4, 5, 6, 7, 8, 9, 10, 11, 12, 13, 14, 15, 16, 17, 18, 19, 20, 21, 22, 23, 24, 25 :: real]
     = [1, 2, 3, 4, 5, 6, 7, 8, 9, 10, 11, 12, 13, 14, 15, 16, 17, 18, 19, 20, 21, 22, 23, 24, 25]"
  by (rule sorted_sort_id) simp

lemma rounded_28_of_25: "fl53 (fl53 (7 / 25) * 25) = 7881299347898369 / 1125899906842624"
  by (simp add: fl53_def binade.simps round_ties_even_def Let_def)

text \<open>
  Claim C5, as stated, fails: for \<open>p = 28\<close> and the 25 samples \<open>1, ..., 25\<close> the exact rank
  \<open>ceil(28/100 * 25) = 7\<close> selects index \<open>6\<close>, the sample \<open>7\<close>, but in binary64
  \<open>(28 / 100) * 25\<close> is \<open>7.000000000000001\<close>, and \<open>percentile\<close> returns the sample \<open>8\<close> at
  index \<open>7\<close>.
\<close>

theorem percentile_rank_rounds_up:
  "percentile [1, 2, 3, 4, 5, 6, 7, 8, 9, 10, 11, 12, 13, 14, 15, 16, 17, 18, 19, 20, 21, 22, 23, 24, 25] 28
     = Some 8 \<and>
   max 0 (\<lceil>28 / 100 * real (length [1, 2, 3, 4, 5, 6, 7, 8, 9, 10, 11, 12, 13, 14, 15, 16, 17, 18, 19, 20,
                                      21, 22, 23, 24, 25 :: real])\<rceil> - 1) = 6 \<and>
   sort [1, 2, 3, 4, 5, 6, 7, 8, 9, 10, 11, 12, 13, 14, 15, 16, 17, 18, 19, 20, 21, 22, 23, 24, 25 :: real] ! 6
     = 7"
  by (simp add: percentile_def Let_def quarter_list_sorted rounded_28_of_25 array_get_def)

text \<open>
  Claim C5, amended. \<open>percentile\<close> returns \<open>0\<close> on the empty list. On a non-empty list of
  length \<open>n\<close> it reads the ascending sort at index \<open>max(0, ceil(m) - 1)\<close>, where \<open>m\<close> is
  \<open>(p / 100) * n\<close> as binary64 computes it, the quotient and the product each rounded to
  the nearest double. For \<open>p \<le> 100\<close> that index is inside the array, so the result is one
  of the samples (nearest rank, no interpolation), and for \<open>0 \<le> p \<le> 100\<close> it is the index
  of the exact rank or a neighbour of it. In particular
  \<open>percentile [10] 50 = percentile [10] 99 = 10\<close>.
\<close>

theorem percentile_binary64_rank:
  "percentile [] p = Some 0 \<and>
   (arr \<noteq> [] \<longrightarrow>
      percentile arr p =
        array_get (sort arr) (max 0 (\<lceil>fl53 (fl53 (p / 100) * real (length arr))\<rceil> - 1))) \<and>
   (arr \<noteq> [] \<and> p \<le> 100 \<and> length arr \<le> 2 ^ 53 \<longrightarrow>
      (\<exists>v. percentile arr p = Some v \<and>
           v = sort arr ! nat (max 0 (\<lceil>fl53 (fl53 (p / 100) * real (length arr))\<rceil> - 1)) \<and>
           nat (max 0 (\<lceil>fl53 (fl53 (p / 100) * real (length arr))\<rceil> - 1)) < length arr \<and>
           v \<in> set arr)) \<and>
   (0 \<le> p \<and> p \<le> 100 \<and> length arr \<le> 2 ^ 32 \<longrightarrow>
      \<bar>max 0 (\<lceil>fl53 (fl53 (p / 100) * real (length arr))\<rceil> - 1)
         - max 0 (\<lceil>p / 100 * real (length arr)\<rceil> - 1)\<bar> \<le> 1) \<and>
   percentile [10] 50 = Some 10 \<and> percentile [10] 99 = Some 10"
proof (intro conjI impI)
  show "percentile [] p = Some 0" by (simp add: percentile_def)
next
  assume "arr \<noteq> []"
  then show "percentile arr p =
        array_get (sort arr) (max 0 (\<lceil>fl53 (fl53 (p / 100) * real (length arr))\<rceil> - 1))"
    by (simp add: percentile_rank rank_index_def)
next
  assume h: "arr \<noteq> [] \<and> p \<le> 100 \<and> length arr \<le> 2 ^ 53"
  then have r: "rank_index (length arr) p < int (length arr)"
    by (intro rank_index_in_array) simp_all
  have d: "percentile arr p = Some (sort arr ! nat (rank_index (length arr) p))"
    using h r by (intro percentile_in_range) simp_all
  have m: "sort arr ! nat (rank_index (length arr) p) \<in> set arr"
    using h r by (intro percentile_member) simp_all
  have l: "nat (rank_index (length arr) p) < length arr"
    using r by (rule rank_index_nat_less)
  show "\<exists>v. percentile arr p = Some v \<and>
           v = sort arr ! nat (max 0 (\<lceil>fl53 (fl53 (p / 100) * real (length arr))\<rceil> - 1)) \<and>
           nat (max 0 (\<lceil>fl53 (fl53 (p / 100) * real (length arr))\<rceil> - 1)) < length arr \<and>
           v \<in> set arr"
    using d m l by (simp add: rank_index_def)
next
  assume "0 \<le> p \<and> p \<le> 100 \<and> length arr \<le> 2 ^ 32"
  then show "\<bar>max 0 (\<lceil>fl53 (fl53 (p / 100) * real (length arr))\<rceil> - 1)
         - max 0 (\<lceil>p / 100 * real (length arr)\<rceil> - 1)\<bar> \<le> 1"
    using rank_index_close[of p "length arr"] by (simp add: rank_index_def)
next
  have "rank_index (length [10 :: real]) 50 < int (length [10 :: real])"
    by (rule standard_ranks) simp
  then have "percentile [10] 50 = Some (sort [10] ! nat (rank_index (length [10 :: real]) 50))"
    by (intro percentile_in_range) simp_all
  moreover have "nat (rank_index (length [10 :: real]) 50) = 0"
    using standard_ranks(1)[of "length [10 :: real]"] rank_index_nonneg[of "length [10 :: real]" 50]
    by simp
  ultimately show "percentile [10] 50 = Some 10" by simp
next
  have "rank_index (length [10 :: real]) 99 < int (length [10 :: real])"
    by (rule standard_ranks) simp
  then have "percentile [10] 99 = Some (sort [10] ! nat (rank_index (length [10 :: real]) 99))"
    by (intro percentile_in_range) simp_all
  moreover have "nat (rank_index (length [10 :: real]) 99) = 0"
    using standard_ranks(3)[of "length [10 :: real]"] rank_index_nonneg[of "length [10 :: real]" 99]
    by simp
  ultimately show "percentile [10] 99 = Some 10" by simp
qed

theorem percentile_binary64_rank_witness:
  "[30, 10, 20] \<noteq> ([] :: real list) \<and> (0 :: real) \<le> 50 \<and> (50 :: real) \<le> 100 \<and>
   length [30, 10, 20 :: real] \<le> 2 ^ 32 \<and>
   percentile [30, 10, 20] 50 = Some 20 \<and>
   max 0 (\<lceil>fl53 (fl53 (50 / 100) * real (length [30, 10, 20 :: real]))\<rceil> - 1) = 1 \<and>
   max 0 (\<lceil>50 / 100 * real (length [30, 10, 20 :: real])\<rceil> - 1) = 1 \<and>
   sort [30, 10, 20 :: real] ! 1 = 20"
  using percentile_binary64_rank[of 50 "[30, 10, 20]"]
  by (simp add: percentile_def array_get_def fl53_def binade.simps round_ties_even_def Let_def)

subsection \<open>Suite aggregator\<close>

lemma map_throwing_Inr:
  "map_throwing f xs = Inr ys \<longleftrightarrow> list_all2 (\<lambda>x y. f x = Inr y) xs ys"
proof (induction xs arbitrary: ys)
  case Nil
  then show ?case by auto
next
  case (Cons x xs)
  show ?case
    by (auto simp: list_all2_Cons1 Cons.IH[symmetric] split: sum.splits)
qed

lemma map_throwing_Inl:
  "(\<exists>e. map_throwing f xs = Inl e) \<longleftrightarrow> (\<exists>x \<in> set xs. \<exists>e. f x = Inl e)"
  by (induction xs) (auto split: sum.splits)

lemma those_map_None:
  "those (map f xs) = None \<longleftrightarrow> (\<exists>x \<in> set xs. f x = None)"
  by (induction xs) (auto split: option.splits)

lemma those_map_Some_length:
  "those (map f xs) = Some ys \<Longrightarrow> length ys = length xs"
  by (induction xs arbitrary: ys) (auto split: option.splits)

lemma those_map_Cons:
  "those (map f (x # xs)) = Some ys \<Longrightarrow>
   \<exists>y ys'. ys = y # ys' \<and> f x = Some y \<and> those (map f xs) = Some ys'"
  by (auto split: option.splits)

lemma find_name_None: "find (\<lambda>r. name r = nm) suite = None \<longleftrightarrow> nm \<notin> set (map name suite)"
  by (auto simp: find_None_iff)

lemma js_error_is_TypeError: "(e :: js_error) = TypeError"
  by (cases e) simp

lemma aggregateOperation_Inl:
  "aggregateOperation cfg S nm = Inl TypeError \<longleftrightarrow>
     S = [] \<or> (\<exists>suite \<in> set S. nm \<notin> set (map name suite))"
proof (cases "those (map (find (\<lambda>r. name r = nm)) S)")
  case None
  then have "\<exists>suite \<in> set S. nm \<notin> set (map name suite)"
    by (simp only: those_map_None find_name_None)
  with None show ?thesis by (simp add: aggregateOperation_def)
next
  case (Some rs)
  then have all: "\<not> (\<exists>suite \<in> set S. nm \<notin> set (map name suite))"
    using those_map_None[of "find (\<lambda>r. name r = nm)" S] by (simp only: find_name_None) simp
  have len: "length rs = length S" using Some by (rule those_map_Some_length)
  show ?thesis
  proof (cases rs)
    case Nil
    with len have "S = []" by simp
    with Some Nil show ?thesis by (simp add: aggregateOperation_def)
  next
    case (Cons r0 rest)
    with len have "S \<noteq> []" by auto
    with Some Cons all show ?thesis by (simp add: aggregateOperation_def Let_def)
  qed
qed

lemma aggregateOperation_Inr:
  assumes "aggregateOperation cfg S nm = Inr r"
  shows "\<exists>r0 rs. those (map (find (\<lambda>r. name r = nm)) S) = Some (r0 # rs) \<and>
           name r = nm \<and>
           iterations r = iterations r0 * suiteRuns cfg \<and>
           runs r = runs r0 * suiteRuns cfg \<and>
           avgOpsPerSecond r =
             js_round (js_div (foldl js_add (Num 0) (map avgOpsPerSecond (r0 # rs)))
                              (Num (real (length (r0 # rs))))) \<and>
           opsPerSecondStdDev r = js_round (stdDev (map avgOpsPerSecond (r0 # rs)))"
  using assms
  by (auto simp: aggregateOperation_def Let_def split: option.splits list.splits)

lemma aggregateResults_Inr:
  "aggregateResults cfg S = Inr out \<longleftrightarrow>
     (\<exists>suite0 rest. S = suite0 # rest \<and>
        list_all2 (\<lambda>nm r. aggregateOperation cfg S nm = Inr r) (map name suite0) out)"
  by (cases S) (simp_all add: aggregateResults_def map_throwing_Inr)

lemma aggregateResults_member:
  assumes "aggregateResults cfg S = Inr out" "r \<in> set out"
  shows "aggregateOperation cfg S (name r) = Inr r"
proof -
  from assms(1) obtain suite0 rest where s: "S = suite0 # rest" and
    l: "list_all2 (\<lambda>nm r. aggregateOperation cfg S nm = Inr r) (map name suite0) out"
    unfolding aggregateResults_Inr by blast
  from assms(2) obtain k where k: "k < length out" "out ! k = r"
    by (auto simp: in_set_conv_nth)
  with l have a: "aggregateOperation cfg S (map name suite0 ! k) = Inr r"
    by (auto simp: list_all2_conv_all_nth)
  then have "name r = map name suite0 ! k"
    using aggregateOperation_Inr[OF a] by auto
  with a show ?thesis by simp
qed

lemma aggregateResults_names:
  assumes "aggregateResults cfg S = Inr out"
  shows "map name out = map name (hd S)"
proof -
  from assms obtain suite0 rest where s: "S = suite0 # rest" and
    l: "list_all2 (\<lambda>nm r. aggregateOperation cfg S nm = Inr r) (map name suite0) out"
    unfolding aggregateResults_Inr by blast
  have "list_all2 (\<lambda>nm r. name r = nm) (map name suite0) out"
    by (rule list_all2_mono[OF l]) (use aggregateOperation_Inr in blast)
  then have "map name out = map name suite0"
    by (induction rule: list_all2_induct) auto
  with s show ?thesis by simp
qed

lemma aggregateResults_Inl:
  "aggregateResults cfg S = Inl TypeError \<longleftrightarrow>
     (case S of
        [] \<Rightarrow> True
      | suite0 # _ \<Rightarrow> (\<exists>nm \<in> set (map name suite0). \<exists>suite \<in> set S. nm \<notin> set (map name suite)))"
proof (cases S)
  case Nil
  then show ?thesis by (simp add: aggregateResults_def)
next
  case (Cons suite0 rest)
  have "aggregateResults cfg S = Inl TypeError \<longleftrightarrow>
        (\<exists>e. map_throwing (aggregateOperation cfg S) (map name suite0) = Inl e)"
    using Cons js_error_is_TypeError by (auto simp add: aggregateResults_def)
  also have "\<dots> \<longleftrightarrow> (\<exists>nm \<in> set (map name suite0). aggregateOperation cfg S nm = Inl TypeError)"
    unfolding map_throwing_Inl using js_error_is_TypeError by metis
  also have "\<dots> \<longleftrightarrow> (\<exists>nm \<in> set (map name suite0). \<exists>suite \<in> set S. nm \<notin> set (map name suite))"
    unfolding aggregateOperation_Inl using Cons by simp
  finally show ?thesis using Cons by simp
qed

lemma foldl_js_add_Num:
  "foldl js_add (Num a) (map (\<lambda>x. Num (f x)) vs) = Num (a + sum_list (map f vs))"
  by (induction vs arbitrary: a) (simp_all add: add.assoc)


lemma stdDev_Num:
  assumes "vs \<noteq> []"
  shows "stdDev (map Num vs) = Num (spec_stdDev vs)"
proof -
  define m where "m = sum_list vs / real (length vs)"
  have nonneg: "\<not> sum_list (map (\<lambda>x. (x - m) * (x - m)) vs) / real (length vs) < 0"
    unfolding not_less by (intro divide_nonneg_nonneg sum_list_nonneg) auto
  have "stdDev (map Num vs) =
        Num (sqrt (sum_list (map (\<lambda>x. (x - m) * (x - m)) vs) / real (length vs)))"
    using assms nonneg[unfolded m_def]
    by (simp add: stdDev_def Let_def comp_def js_sub_def foldl_js_add_Num m_def)
  then show ?thesis by (simp add: spec_stdDev_def spec_mean_def m_def power2_eq_square)
qed





text \<open>
  Claim C3, as stated, fails: an operation name that only a later suite has is dropped
  without any error.
\<close>

theorem aggregateResults_skips_extra_operation:
  "\<exists>out. aggregateResults \<lparr>concurrency = 10, suiteRuns = 2\<rparr>
            [[sampleResult ''a'' 100], [sampleResult ''a'' 120, sampleResult ''b'' 7]] = Inr out \<and>
         map name out = [''a''] \<and>
         set (map name [sampleResult ''a'' 100]) \<noteq>
           set (map name [sampleResult ''a'' 120, sampleResult ''b'' 7])"
  by (auto simp add: aggregateResults_def aggregateOperation_def sampleResult_def Let_def)

text \<open>
  Claim C3, amended. Aggregation fails, with a \<open>TypeError\<close>, exactly when the list of suites
  is empty or some operation name of the first suite is absent from a suite. When it
  succeeds, the aggregated names are those of the first suite, in order.
\<close>

theorem aggregateResults_fails_iff:
  "(aggregateResults cfg S = Inl TypeError \<longleftrightarrow>
      (case S of
         [] \<Rightarrow> True
       | suite0 # _ \<Rightarrow>
           (\<exists>nm \<in> set (map name suite0). \<exists>suite \<in> set S. nm \<notin> set (map name suite)))) \<and>
   (\<forall>out. aggregateResults cfg S = Inr out \<longrightarrow> map name out = map name (hd S))"
  using aggregateResults_Inl[of cfg S] aggregateResults_names[of cfg S] by blast

theorem aggregateResults_fails_iff_witness:
  "aggregateResults \<lparr>concurrency = 10, suiteRuns = 2\<rparr>
     [[sampleResult ''a'' 100, sampleResult ''b'' 7], [sampleResult ''a'' 120]] = Inl TypeError \<and>
   ''b'' \<in> set (map name [sampleResult ''a'' 100, sampleResult ''b'' 7]) \<and>
   ''b'' \<notin> set (map name [sampleResult ''a'' 120]) \<and>
   aggregateResults \<lparr>concurrency = 10, suiteRuns = 2\<rparr> [] = Inl TypeError \<and>
   (\<exists>out. aggregateResults \<lparr>concurrency = 10, suiteRuns = 2\<rparr>
            [[sampleResult ''a'' 100], [sampleResult ''a'' 120]] = Inr out \<and>
          map name out = [''a''])"
proof -
  let ?cfg = "\<lparr>concurrency = 10, suiteRuns = 2\<rparr>"
  have 1: "aggregateResults ?cfg
     [[sampleResult ''a'' 100, sampleResult ''b'' 7], [sampleResult ''a'' 120]] = Inl TypeError"
    using aggregateResults_fails_iff[of ?cfg
        "[[sampleResult ''a'' 100, sampleResult ''b'' 7], [sampleResult ''a'' 120]]"]
    by (simp add: sampleResult_def)
  have 2: "aggregateResults ?cfg [] = Inl TypeError"
    using aggregateResults_fails_iff[of ?cfg "[]"] by simp
  obtain out where o: "aggregateResults ?cfg
            [[sampleResult ''a'' 100], [sampleResult ''a'' 120]] = Inr out"
    by (auto simp add: aggregateResults_def aggregateOperation_def sampleResult_def Let_def)
  then have 3: "map name out = [''a'']"
    using aggregateResults_fails_iff[of ?cfg "[[sampleResult ''a'' 100], [sampleResult ''a'' 120]]"]
    by (simp add: sampleResult_def)
  show ?thesis using 1 2 o 3 by (simp add: sampleResult_def)
qed

text \<open>
  Claim C8, as stated, fails: with \<open>suiteRuns = 3\<close> configured and two suites aggregated,
  \<open>iterations\<close> and \<open>runs\<close> are multiplied by 3, not by 2.
\<close>

theorem aggregateResults_scales_by_config_not_length:
  "\<exists>r. aggregateResults \<lparr>concurrency = 10, suiteRuns = 3\<rparr>
          [[sampleResult ''x'' 100], [sampleResult ''x'' 120]] = Inr [r] \<and>
       iterations r = 900 \<and> runs r = 15 \<and>
       iterations (sampleResult ''x'' 100) * int (length [[sampleResult ''x'' 100], [sampleResult ''x'' 120]]) = 600 \<and>
       runs (sampleResult ''x'' 100) * int (length [[sampleResult ''x'' 100], [sampleResult ''x'' 120]]) = 10"
  by (auto simp add: aggregateResults_def aggregateOperation_def sampleResult_def Let_def)

text \<open>
  Claim C8, amended. The \<open>iterations\<close> and \<open>runs\<close> of an aggregated record are those of the
  first suite's result of that name, multiplied by the configured \<open>CONFIG.suiteRuns\<close>; that
  is the number of suites aggregated whenever the two agree.
\<close>

theorem aggregateResults_scaling:
  assumes "aggregateResults cfg S = Inr out" "r \<in> set out"
  shows "\<exists>suite0 rest r0. S = suite0 # rest \<and>
           find (\<lambda>x. name x = name r) suite0 = Some r0 \<and>
           iterations r = iterations r0 * suiteRuns cfg \<and>
           runs r = runs r0 * suiteRuns cfg \<and>
           (suiteRuns cfg = int (length S) \<longrightarrow>
              iterations r = iterations r0 * int (length S) \<and>
              runs r = runs r0 * int (length S))"
proof -
  have a: "aggregateOperation cfg S (name r) = Inr r"
    using assms by (rule aggregateResults_member)
  from aggregateOperation_Inr[OF a] obtain r0 rs where
    th: "those (map (find (\<lambda>x. name x = name r)) S) = Some (r0 # rs)" and
    it: "iterations r = iterations r0 * suiteRuns cfg" and
    ru: "runs r = runs r0 * suiteRuns cfg"
    by blast
  from assms(1) obtain suite0 rest where s: "S = suite0 # rest"
    unfolding aggregateResults_Inr by blast
  have "find (\<lambda>x. name x = name r) suite0 = Some r0"
    using those_map_Cons[OF th[unfolded s]] by auto
  with s it ru show ?thesis by auto
qed

theorem aggregateResults_scaling_witness:
  "\<exists>r. aggregateResults \<lparr>concurrency = 10, suiteRuns = 2\<rparr>
          [[sampleResult ''x'' 100], [sampleResult ''x'' 120]] = Inr [r] \<and>
       r \<in> set [r] \<and>
       find (\<lambda>x. name x = name r) [sampleResult ''x'' 100] = Some (sampleResult ''x'' 100) \<and>
       suiteRuns \<lparr>concurrency = 10, suiteRuns = 2\<rparr>
         = int (length [[sampleResult ''x'' 100], [sampleResult ''x'' 120]]) \<and>
       iterations r = 600 \<and> runs r = 10"
proof -
  let ?cfg = "\<lparr>concurrency = 10, suiteRuns = 2\<rparr>"
  let ?S = "[[sampleResult ''x'' 100], [sampleResult ''x'' 120]]"
  obtain r where r: "aggregateResults ?cfg ?S = Inr [r]" and n: "name r = ''x''"
    by (auto simp add: aggregateResults_def aggregateOperation_def sampleResult_def Let_def)
  have f: "find (\<lambda>x. name x = name r) [sampleResult ''x'' 100] = Some (sampleResult ''x'' 100)"
    by (simp add: n sampleResult_def)
  from aggregateResults_scaling[OF r, of r] f
  have "iterations r = iterations (sampleResult ''x'' 100) * 2 \<and>
        runs r = runs (sampleResult ''x'' 100) * 2"
    by auto
  then have "iterations r = 600 \<and> runs r = 10"
    by (simp add: sampleResult_def)
  with r f show ?thesis by auto
qed

subsection \<open>Bounded executor: the admission loop\<close>


lemma onSettled_count:
  assumes "idx \<in> set (inFlight st)" "semaphoreCount st = int (length (inFlight st))"
  shows "semaphoreCount (onSettled operation idx st)
           = int (length (inFlight (onSettled operation idx st)))"
proof -
  have pos: "0 < length (inFlight st)"
    using assms(1) by (rule length_pos_if_in_set)
  have "length (remove1 idx (inFlight st)) = length (inFlight st) - 1"
    using assms(1) by (simp add: length_remove1)
  with pos have "int (length (remove1 idx (inFlight st))) = int (length (inFlight st)) - 1"
    by linarith
  with assms(2) show ?thesis
    by (simp add: onSettled_def Let_def)
qed

lemma deliver_count:
  "semaphoreCount st = int (length (inFlight st)) \<Longrightarrow>
   semaphoreCount (deliver operation xs st) = int (length (inFlight (deliver operation xs st)))"
  by (induction xs arbitrary: st) (simp_all add: onSettled_count)

lemma waitForSlot_never_aux:
  assumes "waitForSlot cfg env operation st = Some st'"
  shows "\<not> (concurrency cfg \<le> 0 \<and> semaphoreCount st = int (length (inFlight st)))"
proof (rule waitForSlot.raw_induct[OF _ assms])
  fix wait cfg env operation st st'
  assume IH: "\<And>cfg env operation st st'. wait cfg env operation st = Some st' \<Longrightarrow>
                \<not> (concurrency cfg \<le> 0 \<and> semaphoreCount st = int (length (inFlight st)))"
    and body: "(if concurrency cfg \<le> semaphoreCount st
                then wait cfg env operation
                       (deliver operation (settlesDuringPoll env (polls st) (inFlight st))
                          (st\<lparr>polls := polls st + 1\<rparr>))
                else Some st) = Some st'"
  show "\<not> (concurrency cfg \<le> 0 \<and> semaphoreCount st = int (length (inFlight st)))"
  proof
    assume h: "concurrency cfg \<le> 0 \<and> semaphoreCount st = int (length (inFlight st))"
    let ?st = "deliver operation (settlesDuringPoll env (polls st) (inFlight st))
                (st\<lparr>polls := polls st + 1\<rparr>)"
    from h have "concurrency cfg \<le> semaphoreCount st" by simp
    with body have w: "wait cfg env operation ?st = Some st'" by simp
    have "semaphoreCount ?st = int (length (inFlight ?st))"
      using h by (intro deliver_count) simp
    with h IH[OF w] show False by simp
  qed
qed

lemma waitForSlot_never:
  "concurrency cfg \<le> 0 \<Longrightarrow> semaphoreCount st = int (length (inFlight st)) \<Longrightarrow>
   waitForSlot cfg env operation st = None"
  using waitForSlot_never_aux[of cfg env operation st] by (cases "waitForSlot cfg env operation st") auto

lemma launch_never:
  assumes "concurrency cfg \<le> 0" "semaphoreCount st = int (length (inFlight st))"
  shows "launch cfg env operation iters run (i # rest) st = None"
  using waitForSlot_never[OF assms] by simp

lemma oneRun_never:
  assumes "concurrency cfg \<le> 0" "0 < iters"
  shows "oneRun cfg env operation iters run st = None"
proof -
  have "[0 .. iters - 1] = 0 # [1 .. iters - 1]"
    using assms(2) by (simp add: upto_rec1)
  then show ?thesis
    using launch_never[OF assms(1), of "st\<lparr>latencies := [], runSuccess := 0, semaphoreCount := 0, inFlight := []\<rparr>"]
    by (simp add: oneRun_def)
qed

lemma runLoop_never:
  assumes "concurrency cfg \<le> 0" "0 < iters"
  shows "runLoop cfg env operation iters (run # rest) st = None"
  using oneRun_never[OF assms] by simp

lemma runBenchmark_never:
  assumes "concurrency cfg \<le> 0" "0 < iters" "0 < nruns"
  shows "runBenchmark cfg env nm iters nruns operation = None"
proof -
  have "[0 .. nruns - 1] = 0 # [1 .. nruns - 1]"
    using assms(3) by (simp add: upto_rec1)
  then show ?thesis
    using runLoop_never[OF assms(1,2)] by (simp add: runBenchmark_def)
qed

lemma percentile_total:
  assumes "p = 50 \<or> p = 95 \<or> p = 99"
  shows "\<exists>v. percentile arr p = Some v"
proof (cases "arr = []")
  case True
  then show ?thesis by (simp add: percentile_def)
next
  case False
  then have "0 < length arr" by simp
  from standard_ranks[OF this] assms have "rank_index (length arr) p < int (length arr)"
    by auto
  from percentile_in_range[OF False this] show ?thesis by blast
qed

lemma benchmarkResult_total: "\<exists>r. benchmarkResult nm iters nruns st = Some r"
proof -
  obtain a where a: "percentile (allLatencies st) 50 = Some a"
    using percentile_total[of 50] by blast
  obtain b where b: "percentile (allLatencies st) 95 = Some b"
    using percentile_total[of 95] by blast
  obtain c where c: "percentile (allLatencies st) 99 = Some c"
    using percentile_total[of 99] by blast
  show ?thesis by (simp add: benchmarkResult_def a b c)
qed

lemma oneRun_no_iterations:
  "iters \<le> 0 \<Longrightarrow> \<exists>st'. oneRun cfg env operation iters run st = Some st'"
  by (simp add: oneRun_def Let_def)

lemma runLoop_no_iterations:
  "iters \<le> 0 \<Longrightarrow> \<exists>st'. runLoop cfg env operation iters rs st = Some st'"
proof (induction rs arbitrary: st)
  case Nil
  then show ?case by simp
next
  case (Cons run rs)
  from oneRun_no_iterations[OF Cons.prems] obtain st1 where
    "oneRun cfg env operation iters run st = Some st1" by blast
  with Cons.IH[OF Cons.prems, of st1] show ?case by simp
qed

lemma runBenchmark_returns_without_work:
  assumes "iters \<le> 0 \<or> nruns \<le> 0"
  shows "\<exists>r. runBenchmark cfg env nm iters nruns operation = Some r"
proof -
  have "\<exists>st. runLoop cfg env operation iters [0 .. nruns - 1] initialState = Some st"
  proof (cases "iters \<le> 0")
    case True
    then show ?thesis by (rule runLoop_no_iterations)
  next
    case False
    with assms have "[0 .. nruns - 1] = []" by simp
    then show ?thesis by simp
  qed
  then obtain st where "runLoop cfg env operation iters [0 .. nruns - 1] initialState = Some st"
    by blast
  with benchmarkResult_total[of nm iters nruns st] show ?thesis
    by (simp add: runBenchmark_def)
qed

text \<open>
  Claim C2, as stated, fails: with a concurrency ceiling of \<open>0\<close> and one iteration of one
  run, \<open>runBenchmark\<close> never settles, and with no iteration it returns a result. No error is
  raised in either case.
\<close>

theorem runBenchmark_zero_concurrency_hangs:
  "runBenchmark \<lparr>concurrency = 0, suiteRuns = 1\<rparr> oldestFirst ''x'' 1 1 (failingWith ''boom'') = None \<and>
   (\<exists>r. runBenchmark \<lparr>concurrency = 0, suiteRuns = 1\<rparr> oldestFirst ''x'' 0 1 (failingWith ''boom'')
          = Some r)"
  using runBenchmark_never[of "\<lparr>concurrency = 0, suiteRuns = 1\<rparr>" 1 1 oldestFirst "''x''" "failingWith ''boom''"]
    runBenchmark_returns_without_work[of 0 1 "\<lparr>concurrency = 0, suiteRuns = 1\<rparr>" oldestFirst "''x''" "failingWith ''boom''"]
  by simp

text \<open>
  Claim C2, amended. With a concurrency ceiling \<open>C \<le> 0\<close>, \<open>runBenchmark\<close> never settles when
  there is at least one iteration and one run: the admission loop polls forever before the
  first operation is started. When there is no iteration or no run, it returns a result.
  It raises no error.
\<close>

theorem runBenchmark_nonpositive_concurrency:
  "(concurrency cfg \<le> 0 \<and> 0 < iters \<and> 0 < nruns \<longrightarrow>
      runBenchmark cfg env nm iters nruns operation = None) \<and>
   (concurrency cfg \<le> 0 \<and> (iters \<le> 0 \<or> nruns \<le> 0) \<longrightarrow>
      (\<exists>r. runBenchmark cfg env nm iters nruns operation = Some r))"
  using runBenchmark_never[of cfg iters nruns env nm operation]
    runBenchmark_returns_without_work[of iters nruns cfg env nm operation]
  by blast

theorem runBenchmark_nonpositive_concurrency_witness:
  "concurrency \<lparr>concurrency = - 1, suiteRuns = 1\<rparr> \<le> 0 \<and> (0 :: int) < 3 \<and> (0 :: int) < 2 \<and>
   runBenchmark \<lparr>concurrency = - 1, suiteRuns = 1\<rparr> oldestFirst ''x'' 3 2 (failingWith ''boom'') = None \<and>
   (\<exists>r. runBenchmark \<lparr>concurrency = - 1, suiteRuns = 1\<rparr> oldestFirst ''x'' 3 0 (failingWith ''boom'')
          = Some r)"
  using runBenchmark_nonpositive_concurrency[of "\<lparr>concurrency = - 1, suiteRuns = 1\<rparr>" 3 2
      oldestFirst "''x''" "failingWith ''boom''"]
    runBenchmark_nonpositive_concurrency[of "\<lparr>concurrency = - 1, suiteRuns = 1\<rparr>" 3 0
      oldestFirst "''x''" "failingWith ''boom''"]
  by simp

subsection \<open>Bounded executor: invariants of the loops\<close>

lemma waitForSlot_invariant:
  assumes "waitForSlot cfg env operation st = Some st'"
    and "P st"
    and "\<And>s xs. P s \<Longrightarrow> P (deliver operation xs (s\<lparr>polls := polls s + 1\<rparr>))"
  shows "P st'"
proof -
  have "(\<forall>s xs. P s \<longrightarrow> P (deliver operation xs (s\<lparr>polls := polls s + 1\<rparr>))) \<longrightarrow> P st \<longrightarrow> P st'"
  proof (rule waitForSlot.raw_induct[OF _ assms(1)])
    fix wait cfg env operation st st'
    assume IH: "\<And>cfg env operation st st'. wait cfg env operation st = Some st' \<Longrightarrow>
                  (\<forall>s xs. P s \<longrightarrow> P (deliver operation xs (s\<lparr>polls := polls s + 1\<rparr>))) \<longrightarrow>
                  P st \<longrightarrow> P st'"
      and body: "(if concurrency cfg \<le> semaphoreCount st
                  then wait cfg env operation
                         (deliver operation (settlesDuringPoll env (polls st) (inFlight st))
                            (st\<lparr>polls := polls st + 1\<rparr>))
                  else Some st) = Some st'"
    show "(\<forall>s xs. P s \<longrightarrow> P (deliver operation xs (s\<lparr>polls := polls s + 1\<rparr>))) \<longrightarrow>
          P st \<longrightarrow> P st'"
    proof (cases "concurrency cfg \<le> semaphoreCount st")
      case True
      with body have "wait cfg env operation
                         (deliver operation (settlesDuringPoll env (polls st) (inFlight st))
                            (st\<lparr>polls := polls st + 1\<rparr>)) = Some st'"
        by simp
      from IH[OF this] show ?thesis by blast
    next
      case False
      with body show ?thesis by simp
    qed
  qed
  with assms(2,3) show ?thesis by blast
qed

lemma launch_invariant:
  assumes "launch cfg env operation iters run todo st = Some st'"
    and "P st"
    and poll: "\<And>s xs. P s \<Longrightarrow> P (deliver operation xs (s\<lparr>polls := polls s + 1\<rparr>))"
    and start: "\<And>s i. P s \<Longrightarrow>
                  P (s\<lparr>semaphoreCount := semaphoreCount s + 1, inFlight := inFlight s @ [i]\<rparr>)"
  shows "P st'"
  using assms(1,2)
proof (induction todo arbitrary: st)
  case Nil
  then show ?case by simp
next
  case (Cons i todo)
  from Cons.prems(1) obtain s1 where
    w: "waitForSlot cfg env operation st = Some s1" and
    l: "launch cfg env operation iters run todo
          (s1\<lparr>semaphoreCount := semaphoreCount s1 + 1, inFlight := inFlight s1 @ [i + run * iters]\<rparr>)
        = Some st'"
    by (auto split: option.splits)
  have "P s1" using w Cons.prems(2) poll by (rule waitForSlot_invariant)
  then have "P (s1\<lparr>semaphoreCount := semaphoreCount s1 + 1, inFlight := inFlight s1 @ [i + run * iters]\<rparr>)"
    by (rule start)
  with Cons.IH[OF l] show ?case .
qed

text \<open>The error list is the list of distinct messages of the callbacks run so far.\<close>

lemma unique_in_order_snoc:
  "unique_in_order (xs @ [x]) = insert_new (unique_in_order xs) x"
  by (simp add: unique_in_order_def)

lemma failureMessages_snoc:
  "failureMessages operation (idxs @ [i]) = failureMessages operation idxs @ truthyMessage (operation i)"
  by (simp add: failureMessages_def)

lemma unique_in_order_append:
  "unique_in_order (xs @ ys) = foldl insert_new (unique_in_order xs) ys"
  by (simp add: unique_in_order_def)

lemma onSettled_errorList:
  assumes "errorList st = unique_in_order (failureMessages operation (settled st))"
  shows "errorList (onSettled operation idx st)
           = unique_in_order (failureMessages operation (settled (onSettled operation idx st)))"
proof -
  have "(if success (operation idx) then errorList st
         else recordError (errorList st) (error (operation idx)))
        = foldl insert_new (errorList st) (truthyMessage (operation idx))"
    by (simp add: recordError_def truthyMessage_def insert_new_def split: option.splits)
  then show ?thesis
    using assms
    by (simp add: onSettled_def Let_def failureMessages_snoc unique_in_order_append)
qed

lemma deliver_errorList:
  "errorList st = unique_in_order (failureMessages operation (settled st)) \<Longrightarrow>
   errorList (deliver operation xs st)
     = unique_in_order (failureMessages operation (settled (deliver operation xs st)))"
  by (induction xs arbitrary: st) (simp_all add: onSettled_errorList)

lemma oneRun_Some:
  assumes "oneRun cfg env operation iters run st = Some st'"
  shows "\<exists>s1 ops.
           launch cfg env operation iters run [0 .. iters - 1]
             (st\<lparr>latencies := [], runSuccess := 0, semaphoreCount := 0, inFlight := []\<rparr>) = Some s1 \<and>
           ops = js_round (js_mul (js_div (Num (of_int iters)) (Num (measuredDurationMs env run)))
                                  (Num 1000)) \<and>
           st' = (awaitAll env operation run s1)
                   \<lparr>allOps := allOps (awaitAll env operation run s1) @ [ops],
                    allLatencies := allLatencies (awaitAll env operation run s1)
                                      @ latencies (awaitAll env operation run s1),
                    totalSuccess := totalSuccess (awaitAll env operation run s1)
                                      + runSuccess (awaitAll env operation run s1),
                    totalAttempts := totalAttempts (awaitAll env operation run s1) + iters\<rparr>"
proof (cases "launch cfg env operation iters run [0 .. iters - 1]
             (st\<lparr>latencies := [], runSuccess := 0, semaphoreCount := 0, inFlight := []\<rparr>)")
  case None
  with assms show ?thesis by (simp add: oneRun_def)
next
  case (Some s1)
  with assms show ?thesis by (simp add: oneRun_def Let_def)
qed

lemma oneRun_errorList:
  assumes "oneRun cfg env operation iters run st = Some st'"
    and "errorList st = unique_in_order (failureMessages operation (settled st))"
  shows "errorList st' = unique_in_order (failureMessages operation (settled st'))"
proof -
  let ?P = "\<lambda>s. errorList s = unique_in_order (failureMessages operation (settled s))"
  let ?st0 = "st\<lparr>latencies := [], runSuccess := 0, semaphoreCount := 0, inFlight := []\<rparr>"
  from oneRun_Some[OF assms(1)] obtain s1 ops where
    l: "launch cfg env operation iters run [0 .. iters - 1] ?st0 = Some s1" and
    e: "st' = (awaitAll env operation run s1)
                   \<lparr>allOps := allOps (awaitAll env operation run s1) @ [ops],
                    allLatencies := allLatencies (awaitAll env operation run s1)
                                      @ latencies (awaitAll env operation run s1),
                    totalSuccess := totalSuccess (awaitAll env operation run s1)
                                      + runSuccess (awaitAll env operation run s1),
                    totalAttempts := totalAttempts (awaitAll env operation run s1) + iters\<rparr>"
    by blast
  have "?P ?st0" using assms(2) by simp
  with l have "?P s1"
    by (rule launch_invariant) (simp_all add: deliver_errorList)
  then have "?P (awaitAll env operation run s1)"
    by (simp add: awaitAll_def Let_def deliver_errorList)
  then show ?thesis by (simp add: e)
qed

lemma runLoop_errorList:
  assumes "runLoop cfg env operation iters rs st = Some st'"
    and "errorList st = unique_in_order (failureMessages operation (settled st))"
  shows "errorList st' = unique_in_order (failureMessages operation (settled st'))"
  using assms
proof (induction rs arbitrary: st)
  case Nil
  then show ?case by simp
next
  case (Cons run rs)
  from Cons.prems(1) obtain s1 where
    o: "oneRun cfg env operation iters run st = Some s1" and
    r: "runLoop cfg env operation iters rs s1 = Some st'"
    by (auto split: option.splits)
  show ?case
    using Cons.IH[OF r oneRun_errorList[OF o Cons.prems(2)]] .
qed

text \<open>
  Every operation that was started has its callback run once: the settled indices and the
  indices in flight are, together, the indices started.
\<close>

lemma onSettled_accounted:
  "idx \<in> set (inFlight st) \<Longrightarrow>
   mset (settled (onSettled operation idx st)) + mset (inFlight (onSettled operation idx st))
     = mset (settled st) + mset (inFlight st)"
  by (simp add: onSettled_def Let_def)

lemma deliver_accounted:
  "mset (settled (deliver operation xs st)) + mset (inFlight (deliver operation xs st))
     = mset (settled st) + mset (inFlight st)"
  by (induction xs arbitrary: st) (simp_all add: onSettled_accounted)

lemma deliver_inFlight:
  "inFlight (deliver operation xs st) = fold remove1 xs (inFlight st)"
  by (induction xs arbitrary: st) (simp_all add: onSettled_def Let_def remove1_idem)

lemma mset_fold_remove1: "mset (fold remove1 xs ys) = mset ys - mset xs"
proof (induction xs arbitrary: ys)
  case Nil
  then show ?case by simp
next
  case (Cons a xs)
  have "mset ys - {#a#} - mset xs = mset ys - ({#a#} + mset xs)"
    by (rule diff_diff_add)
  with Cons show ?case by simp
qed

lemma awaitAll_inFlight: "inFlight (awaitAll env operation run st) = []"
proof -
  have "mset (inFlight (awaitAll env operation run st)) = {#}"
    by (simp add: awaitAll_def Let_def deliver_inFlight mset_fold_remove1)
  then show ?thesis by simp
qed

lemma awaitAll_settled:
  "mset (settled (awaitAll env operation run st)) = mset (settled st) + mset (inFlight st)"
proof -
  have "mset (settled (awaitAll env operation run st)) + mset (inFlight (awaitAll env operation run st))
          = mset (settled st) + mset (inFlight st)"
    by (simp add: awaitAll_def Let_def deliver_accounted)
  then show ?thesis by (simp add: awaitAll_inFlight)
qed

lemma launch_accounted:
  assumes "launch cfg env operation iters run todo st = Some st'"
  shows "mset (settled st') + mset (inFlight st')
           = mset (settled st) + mset (inFlight st) + mset (map (\<lambda>i. i + run * iters) todo)"
  using assms
proof (induction todo arbitrary: st)
  case Nil
  then show ?case by simp
next
  case (Cons i todo)
  from Cons.prems obtain s1 where
    w: "waitForSlot cfg env operation st = Some s1" and
    l: "launch cfg env operation iters run todo
          (s1\<lparr>semaphoreCount := semaphoreCount s1 + 1, inFlight := inFlight s1 @ [i + run * iters]\<rparr>)
        = Some st'"
    by (auto split: option.splits)
  have "mset (settled s1) + mset (inFlight s1) = mset (settled st) + mset (inFlight st)"
    using w by (rule waitForSlot_invariant) (simp_all add: deliver_accounted)
  with Cons.IH[OF l] show ?case by simp
qed

lemma oneRun_settled:
  assumes "oneRun cfg env operation iters run st = Some st'"
  shows "mset (settled st') = mset (settled st) + mset (map (\<lambda>i. i + run * iters) [0 .. iters - 1])"
proof -
  let ?st0 = "st\<lparr>latencies := [], runSuccess := 0, semaphoreCount := 0, inFlight := []\<rparr>"
  from oneRun_Some[OF assms] obtain s1 ops where
    l: "launch cfg env operation iters run [0 .. iters - 1] ?st0 = Some s1" and
    e: "st' = (awaitAll env operation run s1)
                   \<lparr>allOps := allOps (awaitAll env operation run s1) @ [ops],
                    allLatencies := allLatencies (awaitAll env operation run s1)
                                      @ latencies (awaitAll env operation run s1),
                    totalSuccess := totalSuccess (awaitAll env operation run s1)
                                      + runSuccess (awaitAll env operation run s1),
                    totalAttempts := totalAttempts (awaitAll env operation run s1) + iters\<rparr>"
    by blast
  have "mset (settled st') = mset (settled s1) + mset (inFlight s1)"
    by (simp add: e awaitAll_settled)
  with launch_accounted[OF l] show ?thesis by simp
qed

lemma runLoop_settled:
  assumes "runLoop cfg env operation iters rs st = Some st'"
  shows "mset (settled st')
           = mset (settled st)
             + mset (concat (map (\<lambda>run. map (\<lambda>i. i + run * iters) [0 .. iters - 1]) rs))"
  using assms
proof (induction rs arbitrary: st)
  case Nil
  then show ?case by simp
next
  case (Cons run rs)
  from Cons.prems obtain s1 where
    o: "oneRun cfg env operation iters run st = Some s1" and
    r: "runLoop cfg env operation iters rs s1 = Some st'"
    by (auto split: option.splits)
  from oneRun_settled[OF o] Cons.IH[OF r] show ?case by simp
qed

lemma runBenchmark_Some:
  assumes "runBenchmark cfg env nm iters nruns operation = Some r"
  shows "\<exists>st. runLoop cfg env operation iters [0 .. nruns - 1] initialState = Some st \<and>
              benchmarkResult nm iters nruns st = Some r"
  using assms by (auto simp: runBenchmark_def split: option.splits)

lemma benchmarkResult_errors:
  "benchmarkResult nm iters nruns st = Some r \<Longrightarrow> errors r = take 5 (errorList st)"
  by (auto simp: benchmarkResult_def split: bind_splits)

lemma unique_in_order_distinct_aux:
  "distinct acc \<Longrightarrow> distinct (foldl insert_new acc xs) \<and> set (foldl insert_new acc xs) = set acc \<union> set xs"
  by (induction xs arbitrary: acc) (auto simp: insert_new_def)

lemma unique_in_order_distinct:
  "distinct (unique_in_order xs) \<and> set (unique_in_order xs) = set xs"
  using unique_in_order_distinct_aux[of "[]" xs] by (simp add: unique_in_order_def)

subsection \<open>Bounded executor: termination under a live event loop\<close>

lemma deliver_inFlight_length:
  "length (inFlight (deliver operation xs st)) \<le> length (inFlight st)"
proof -
  have "size (mset (inFlight st) - mset xs) \<le> size (mset (inFlight st))"
    by (rule size_mset_mono) simp
  then show ?thesis
    by (simp add: deliver_inFlight mset_fold_remove1 flip: size_mset)
qed

lemma deliver_inFlight_shrinks:
  assumes "i \<in> set xs" "i \<in> set (inFlight st)"
  shows "length (inFlight (deliver operation xs st)) < length (inFlight st)"
  using assms
proof (induction xs arbitrary: st)
  case Nil
  then show ?case by simp
next
  case (Cons x xs)
  show ?case
  proof (cases "i = x")
    case True
    have "length (inFlight (onSettled operation i st)) < length (inFlight st)"
      using Cons.prems(2) length_pos_if_in_set[OF Cons.prems(2)]
      by (simp add: onSettled_def Let_def length_remove1)
    moreover have "length (inFlight (deliver operation xs (onSettled operation i st)))
                     \<le> length (inFlight (onSettled operation i st))"
      by (rule deliver_inFlight_length)
    ultimately show ?thesis using True Cons.prems(2) by simp
  next
    case False
    let ?s1 = "if x \<in> set (inFlight st) then onSettled operation x st else st"
    have mem: "i \<in> set (inFlight ?s1)"
      using False Cons.prems(2) by (simp add: onSettled_def Let_def)
    have le: "length (inFlight ?s1) \<le> length (inFlight st)"
      by (simp add: onSettled_def Let_def length_remove1)
    from False Cons.prems(1) have "i \<in> set xs" by simp
    from Cons.IH[OF this mem] le show ?thesis by simp
  qed
qed

lemma waitForSlot_returns:
  assumes "0 < concurrency cfg" "live env"
    and "semaphoreCount st = int (length (inFlight st))"
  shows "\<exists>st'. waitForSlot cfg env operation st = Some st' \<and>
               semaphoreCount st' = int (length (inFlight st'))"
  using assms(3)
proof (induction "length (inFlight st)" arbitrary: st rule: less_induct)
  case less
  show ?case
  proof (cases "concurrency cfg \<le> semaphoreCount st")
    case False
    then show ?thesis
      using less.prems by (subst waitForSlot.simps) simp
  next
    case True
    let ?st0 = "st\<lparr>polls := polls st + 1\<rparr>"
    let ?st1 = "deliver operation (settlesDuringPoll env (polls st) (inFlight st)) ?st0"
    from True assms(1) less.prems have "inFlight st \<noteq> []" by auto
    with assms(2) obtain i where
      i: "i \<in> set (inFlight st)" "i \<in> set (settlesDuringPoll env (polls st) (inFlight st))"
      unfolding live_def by blast
    have "length (inFlight ?st1) < length (inFlight ?st0)"
      using i by (intro deliver_inFlight_shrinks[of i]) simp_all
    then have sm: "length (inFlight ?st1) < length (inFlight st)" by simp
    have inv: "semaphoreCount ?st1 = int (length (inFlight ?st1))"
      using less.prems by (intro deliver_count) simp
    from less.hyps[OF sm inv] obtain st' where
      "waitForSlot cfg env operation ?st1 = Some st'"
      "semaphoreCount st' = int (length (inFlight st'))"
      by blast
    then show ?thesis
      using True by (subst waitForSlot.simps) simp
  qed
qed

lemma launch_returns:
  assumes "0 < concurrency cfg" "live env"
    and "semaphoreCount st = int (length (inFlight st))"
  shows "\<exists>st'. launch cfg env operation iters run todo st = Some st'"
  using assms(3)
proof (induction todo arbitrary: st)
  case Nil
  then show ?case by simp
next
  case (Cons i todo)
  from waitForSlot_returns[OF assms(1,2) Cons.prems, of operation] obtain s1 where
    w: "waitForSlot cfg env operation st = Some s1" and
    c: "semaphoreCount s1 = int (length (inFlight s1))"
    by blast
  let ?s2 = "s1\<lparr>semaphoreCount := semaphoreCount s1 + 1, inFlight := inFlight s1 @ [i + run * iters]\<rparr>"
  have "semaphoreCount ?s2 = int (length (inFlight ?s2))"
    using c by simp
  from Cons.IH[OF this] w show ?case by simp
qed

lemma oneRun_returns:
  assumes "0 < concurrency cfg" "live env"
  shows "\<exists>st'. oneRun cfg env operation iters run st = Some st'"
proof -
  let ?st0 = "st\<lparr>latencies := [], runSuccess := 0, semaphoreCount := 0, inFlight := []\<rparr>"
  have "semaphoreCount ?st0 = int (length (inFlight ?st0))" by simp
  from launch_returns[OF assms this, of operation iters run "[0 .. iters - 1]"]
  show ?thesis by (auto simp: oneRun_def Let_def)
qed

lemma runLoop_returns:
  assumes "0 < concurrency cfg" "live env"
  shows "\<exists>st'. runLoop cfg env operation iters rs st = Some st'"
proof (induction rs arbitrary: st)
  case Nil
  then show ?case by simp
next
  case (Cons run rs)
  from oneRun_returns[OF assms, of operation iters run st] obtain s1 where
    "oneRun cfg env operation iters run st = Some s1" by blast
  with Cons[of s1] show ?case by simp
qed

lemma runBenchmark_returns:
  assumes "0 < concurrency cfg" "live env"
  shows "\<exists>r. runBenchmark cfg env nm iters nruns operation = Some r"
proof -
  from runLoop_returns[OF assms, of operation iters "[0 .. nruns - 1]" initialState] obtain st where
    "runLoop cfg env operation iters [0 .. nruns - 1] initialState = Some st" by blast
  with benchmarkResult_total[of nm iters nruns st] show ?thesis
    by (simp add: runBenchmark_def)
qed

lemma oldestFirst_live: "live oldestFirst"
  by (auto simp: live_def oldestFirst_def neq_Nil_conv)

text \<open>The callbacks of a run all come after those of the runs before it.\<close>

lemma deliver_settled_extends:
  "\<exists>p. settled (deliver operation xs st) = settled st @ p"
proof (induction xs arbitrary: st)
  case Nil
  then show ?case by simp
next
  case (Cons x xs)
  let ?s1 = "if x \<in> set (inFlight st) then onSettled operation x st else st"
  obtain q where q: "settled ?s1 = settled st @ q"
    by (cases "x \<in> set (inFlight st)") (simp_all add: onSettled_def Let_def)
  from Cons[of ?s1] obtain p where "settled (deliver operation xs ?s1) = settled ?s1 @ p"
    by blast
  with q have "settled (deliver operation (x # xs) st) = settled st @ (q @ p)"
    by simp
  then show ?case by blast
qed

lemma deliver_keeps_extension:
  assumes "\<exists>p. settled s = base @ p"
  shows "\<exists>p. settled (deliver operation xs s) = base @ p"
proof -
  from assms obtain p where "settled s = base @ p" by blast
  moreover obtain q where "settled (deliver operation xs s) = settled s @ q"
    using deliver_settled_extends by blast
  ultimately have "settled (deliver operation xs s) = base @ (p @ q)"
    by simp
  then show ?thesis by blast
qed

lemma oneRun_settled_extends:
  assumes "oneRun cfg env operation iters run st = Some st'"
  shows "\<exists>p. settled st' = settled st @ p \<and>
             mset p = mset (map (\<lambda>i. i + run * iters) [0 .. iters - 1])"
proof -
  let ?st0 = "st\<lparr>latencies := [], runSuccess := 0, semaphoreCount := 0, inFlight := []\<rparr>"
  from oneRun_Some[OF assms] obtain s1 ops where
    l: "launch cfg env operation iters run [0 .. iters - 1] ?st0 = Some s1" and
    e: "st' = (awaitAll env operation run s1)
                   \<lparr>allOps := allOps (awaitAll env operation run s1) @ [ops],
                    allLatencies := allLatencies (awaitAll env operation run s1)
                                      @ latencies (awaitAll env operation run s1),
                    totalSuccess := totalSuccess (awaitAll env operation run s1)
                                      + runSuccess (awaitAll env operation run s1),
                    totalAttempts := totalAttempts (awaitAll env operation run s1) + iters\<rparr>"
    by blast
  have "\<exists>p. settled ?st0 = settled st @ p" by simp
  with l have "\<exists>p. settled s1 = settled st @ p"
  proof (rule launch_invariant)
    fix s :: ExecState and xs
    assume "\<exists>p. settled s = settled st @ p"
    then have "\<exists>p. settled (s\<lparr>polls := polls s + 1\<rparr>) = settled st @ p" by simp
    then show "\<exists>p. settled (deliver operation xs (s\<lparr>polls := polls s + 1\<rparr>)) = settled st @ p"
      by (rule deliver_keeps_extension)
  next
    fix s :: ExecState and i
    assume "\<exists>p. settled s = settled st @ p"
    then show "\<exists>p. settled (s\<lparr>semaphoreCount := semaphoreCount s + 1,
                                inFlight := inFlight s @ [i]\<rparr>) = settled st @ p"
      by simp
  qed
  then obtain p1 where p1: "settled s1 = settled st @ p1" by blast
  obtain p2 where p2: "settled (deliver operation (settlesAtAwaitAll env run (inFlight s1)) s1)
                         = settled s1 @ p2"
    using deliver_settled_extends by blast
  obtain p3 where p3: "settled (awaitAll env operation run s1)
                         = settled (deliver operation (settlesAtAwaitAll env run (inFlight s1)) s1) @ p3"
    unfolding awaitAll_def Let_def using deliver_settled_extends by blast
  have ext: "settled st' = settled st @ (p1 @ p2 @ p3)"
    by (simp add: e p1 p2 p3)
  have "mset (settled st') = mset (settled st) + mset (map (\<lambda>i. i + run * iters) [0 .. iters - 1])"
    using assms by (rule oneRun_settled)
  with ext have "mset (p1 @ p2 @ p3) = mset (map (\<lambda>i. i + run * iters) [0 .. iters - 1])"
    by simp
  with ext show ?thesis by blast
qed

lemma runLoop_settled_by_run:
  assumes "runLoop cfg env operation iters rs st = Some st'"
  shows "\<exists>ps. settled st' = settled st @ concat ps \<and>
              list_all2 (\<lambda>run p. mset p = mset (map (\<lambda>i. i + run * iters) [0 .. iters - 1])) rs ps"
  using assms
proof (induction rs arbitrary: st)
  case Nil
  then show ?case by simp
next
  case (Cons run rs)
  from Cons.prems obtain s1 where
    o: "oneRun cfg env operation iters run st = Some s1" and
    r: "runLoop cfg env operation iters rs s1 = Some st'"
    by (auto split: option.splits)
  from oneRun_settled_extends[OF o] obtain p where
    p: "settled s1 = settled st @ p"
       "mset p = mset (map (\<lambda>i. i + run * iters) [0 .. iters - 1])"
    by blast
  from Cons.IH[OF r] obtain ps where
    ps: "settled st' = settled s1 @ concat ps"
        "list_all2 (\<lambda>run p. mset p = mset (map (\<lambda>i. i + run * iters) [0 .. iters - 1])) rs ps"
    by blast
  have "settled st' = settled st @ concat (p # ps)"
    using p(1) ps(1) by simp
  moreover have "list_all2 (\<lambda>run p. mset p = mset (map (\<lambda>i. i + run * iters) [0 .. iters - 1]))
                   (run # rs) (p # ps)"
    using p(2) ps(2) by simp
  ultimately show ?case by blast
qed

text \<open>
  Claim C6, as stated, fails: a failing outcome whose error message is the empty string
  leaves no entry in \<open>errors\<close>, although the empty string is its error message.
\<close>

theorem runBenchmark_drops_empty_message:
  "\<exists>r. runBenchmark \<lparr>concurrency = 1, suiteRuns = 1\<rparr> oldestFirst ''x'' 1 1 (failingWith []) = Some r \<and>
       errors r = [] \<and>
       take 5 (unique_in_order (allFailureMessages (failingWith []) (invocations 1 1))) = [[]]"
proof -
  let ?cfg = "\<lparr>concurrency = 1, suiteRuns = 1\<rparr>"
  obtain st where
    l: "runLoop ?cfg oldestFirst (failingWith []) 1 [0 .. 1 - 1] initialState = Some st" and
    e: "errorList st = []"
    by (simp add: oneRun_def waitForSlot.simps initialState_def oldestFirst_def
        failingWith_def onSettled_def recordError_def awaitAll_def)
  from benchmarkResult_total[of "''x''" 1 1 st] obtain r where
    b: "benchmarkResult ''x'' 1 1 st = Some r" by blast
  have r: "runBenchmark ?cfg oldestFirst ''x'' 1 1 (failingWith []) = Some r"
    using l b by (simp add: runBenchmark_def)
  have "errors r = []"
    using benchmarkResult_errors[OF b] e by simp
  moreover have "take 5 (unique_in_order (allFailureMessages (failingWith []) (invocations 1 1))) = [[]]"
    by (simp add: failingWith_def unique_in_order_def insert_new_def allFailureMessages_def
        anyMessage_def invocations_def)
  ultimately show ?thesis using r by blast
qed

text \<open>
  Claim C6, amended. Whenever \<open>runBenchmark\<close> returns, the callbacks have run once for each
  of the invocations, run after run, and \<open>errors\<close> holds the first 5 distinct non-empty error
  messages of the failing outcomes, in the order in which the callbacks first met them.
  It has no duplicates and at most 5 entries; later messages are dropped silently.
\<close>

theorem runBenchmark_errors:
  assumes "runBenchmark cfg env nm iters nruns operation = Some r"
  shows "\<exists>st ps. runLoop cfg env operation iters [0 .. nruns - 1] initialState = Some st \<and>
              settled st = concat ps \<and>
              list_all2 (\<lambda>run p. mset p = mset (map (\<lambda>i. i + run * iters) [0 .. iters - 1]))
                [0 .. nruns - 1] ps \<and>
              mset (settled st) = mset (invocations iters nruns) \<and>
              errors r = take 5 (unique_in_order (failureMessages operation (settled st))) \<and>
              distinct (errors r) \<and> length (errors r) \<le> 5"
proof -
  from runBenchmark_Some[OF assms] obtain st where
    l: "runLoop cfg env operation iters [0 .. nruns - 1] initialState = Some st" and
    b: "benchmarkResult nm iters nruns st = Some r"
    by blast
  have i: "errorList initialState
             = unique_in_order (failureMessages operation (settled initialState))"
    by (simp add: initialState_def failureMessages_def unique_in_order_def)
  have e: "errors r = take 5 (unique_in_order (failureMessages operation (settled st)))"
    using benchmarkResult_errors[OF b] runLoop_errorList[OF l i] by simp
  have m: "mset (settled st) = mset (invocations iters nruns)"
    using runLoop_settled[OF l] by (simp add: initialState_def invocations_def)
  from runLoop_settled_by_run[OF l] obtain ps where
    ps: "settled st = concat ps"
        "list_all2 (\<lambda>run p. mset p = mset (map (\<lambda>i. i + run * iters) [0 .. iters - 1]))
           [0 .. nruns - 1] ps"
    by (auto simp: initialState_def)
  have d: "distinct (errors r)"
    unfolding e using unique_in_order_distinct by (intro distinct_take) blast
  from l m e d ps show ?thesis by auto
qed

theorem runBenchmark_errors_witness:
  "\<exists>r st. runBenchmark \<lparr>concurrency = 2, suiteRuns = 1\<rparr> oldestFirst ''x'' 3 2 (failingWith ''boom'') = Some r \<and>
       runLoop \<lparr>concurrency = 2, suiteRuns = 1\<rparr> oldestFirst (failingWith ''boom'') 3 [0 .. 2 - 1] initialState = Some st \<and>
       mset (settled st) = mset [0, 1, 2, 3, 4, 5] \<and>
       errors r = [''boom'']"
proof -
  let ?cfg = "\<lparr>concurrency = 2, suiteRuns = 1\<rparr>"
  have "0 < concurrency ?cfg" by simp
  from runBenchmark_returns[OF this oldestFirst_live]
  obtain r where r: "runBenchmark ?cfg oldestFirst ''x'' 3 2 (failingWith ''boom'') = Some r"
    by blast
  from runBenchmark_errors[OF r] obtain st where
    l: "runLoop ?cfg oldestFirst (failingWith ''boom'') 3 [0 .. 2 - 1] initialState = Some st" and
    m: "mset (settled st) = mset (invocations 3 2)" and
    e: "errors r = take 5 (unique_in_order (failureMessages (failingWith ''boom'') (settled st)))"
    by blast
  have inv: "invocations 3 2 = [0, 1, 2, 3, 4, 5]"
    by (simp add: invocations_def upto.simps)
  have "set (settled st) = set (invocations 3 2)"
    using m by (rule mset_eq_setD)
  then have "settled st \<noteq> []" by (auto simp: inv)
  then have "unique_in_order (failureMessages (failingWith ''boom'') (settled st)) = [''boom'']"
  proof (induction "settled st" arbitrary: st rule: rev_induct)
    case Nil
    then show ?case by simp
  next
    case (snoc x xs)
    show ?case
    proof (cases "xs = []")
      case True
      with snoc(2)[symmetric] show ?thesis
        by (simp add: failureMessages_def truthyMessage_def failingWith_def unique_in_order_def insert_new_def)
    next
      case False
      have "unique_in_order (failureMessages (failingWith ''boom'') xs) = [''boom'']"
        using snoc(1)[of "st\<lparr>settled := xs\<rparr>"] False by simp
      with snoc(2)[symmetric] show ?thesis
        by (simp add: failureMessages_snoc unique_in_order_append truthyMessage_def failingWith_def insert_new_def)
    qed
  qed
  with r l m e inv show ?thesis by simp
qed

subsection \<open>Bounded executor: no iterations\<close>

lemma deliver_nothing_in_flight: "inFlight st = [] \<Longrightarrow> deliver operation xs st = st"
  by (induction xs) simp_all

lemma oneRun_no_work:
  "oneRun cfg env operation 0 run st =
     Some (st\<lparr>latencies := [], runSuccess := 0, semaphoreCount := 0, inFlight := [],
              allOps := allOps st @
                [js_round (js_mul (js_div (Num 0) (Num (measuredDurationMs env run))) (Num 1000))]\<rparr>)"
  by (simp add: oneRun_def awaitAll_def Let_def deliver_nothing_in_flight)

lemma runLoop_no_work:
  "\<exists>st'. runLoop cfg env operation 0 rs st = Some st' \<and>
         allLatencies st' = allLatencies st \<and>
         totalSuccess st' = totalSuccess st \<and>
         totalAttempts st' = totalAttempts st \<and>
         errorList st' = errorList st \<and>
         allOps st' = allOps st @
           map (\<lambda>run. js_round (js_mul (js_div (Num 0) (Num (measuredDurationMs env run)))
                                        (Num 1000))) rs"
proof (induction rs arbitrary: st)
  case Nil
  then show ?case by simp
next
  case (Cons run rs)
  let ?s1 = "st\<lparr>latencies := [], runSuccess := 0, semaphoreCount := 0, inFlight := [],
              allOps := allOps st @
                [js_round (js_mul (js_div (Num 0) (Num (measuredDurationMs env run))) (Num 1000))]\<rparr>"
  from Cons[of ?s1] show ?case by (simp add: oneRun_no_work)
qed

lemma no_work_throughput:
  "0 < d \<Longrightarrow> js_round (js_mul (js_div (Num 0) (Num d)) (Num 1000)) = Num 0"
  by simp

lemma runBenchmark_no_iterations:
  "\<exists>r. runBenchmark cfg env nm 0 nruns operation = Some r \<and>
       iterations r = 0 \<and> runs r = nruns \<and>
       latency r = \<lparr>min_ms = 0, avg = 0, p50 = 0, p95 = 0, p99 = 0, max_ms = 0\<rparr> \<and>
       successRate r = 0 \<and> errors r = [] \<and>
       (0 < nruns \<and> (\<forall>run \<in> set [0 .. nruns - 1]. 0 < measuredDurationMs env run) \<longrightarrow>
          avgOpsPerSecond r = Num 0 \<and> opsPerSecondStdDev r = Num 0)"
proof -
  let ?f = "\<lambda>run. js_round (js_mul (js_div (Num 0) (Num (measuredDurationMs env run))) (Num 1000))"
  from runLoop_no_work[of cfg env operation "[0 .. nruns - 1]" initialState] obtain st where
    l: "runLoop cfg env operation 0 [0 .. nruns - 1] initialState = Some st" and
    a: "allLatencies st = []" "totalSuccess st = 0" "totalAttempts st = 0" "errorList st = []" and
    o: "allOps st = map ?f [0 .. nruns - 1]"
    by (auto simp: initialState_def)
  let ?r = "\<lparr>name = nm, iterations = 0, runs = nruns,
             avgOpsPerSecond = js_round (js_div (foldl js_add (Num 0) (allOps st)) (Num (of_int nruns))),
             opsPerSecondStdDev = js_round (stdDev (allOps st)),
             latency = \<lparr>min_ms = 0, avg = 0, p50 = 0, p95 = 0, p99 = 0, max_ms = 0\<rparr>,
             successRate = 0, errors = []\<rparr>"
  have r: "runBenchmark cfg env nm 0 nruns operation = Some ?r"
    using l a by (simp add: runBenchmark_def benchmarkResult_def percentile_def)
  have "avgOpsPerSecond ?r = Num 0 \<and> opsPerSecondStdDev ?r = Num 0"
    if pos: "0 < nruns" and d: "\<forall>run \<in> set [0 .. nruns - 1]. 0 < measuredDurationMs env run"
  proof -
    have "map ?f [0 .. nruns - 1] = map (\<lambda>run. Num 0) [0 .. nruns - 1]"
      using d by (intro map_cong) (simp_all only: no_work_throughput)
    then have ops: "allOps st = map Num (map (\<lambda>run. 0) [0 .. nruns - 1])"
      using o by simp
    have ne: "map (\<lambda>run. 0 :: real) [0 .. nruns - 1] \<noteq> []"
      using pos by simp
    have "foldl js_add (Num 0) (allOps st) = Num 0"
      unfolding ops using foldl_js_add_Num[of 0 "\<lambda>x. x" "map (\<lambda>run. 0) [0 .. nruns - 1]"]
      by simp
    then have 1: "avgOpsPerSecond ?r = Num 0"
      using pos by simp
    have "spec_stdDev (map (\<lambda>run. 0) [0 .. nruns - 1]) = 0"
      by (simp add: spec_stdDev_def spec_mean_def comp_def)
    then have "stdDev (allOps st) = Num 0"
      unfolding ops by (simp only: stdDev_Num[OF ne])
    then have 2: "opsPerSecondStdDev ?r = Num 0" by simp
    from 1 2 show ?thesis by simp
  qed
  with r show ?thesis by (intro exI[of _ ?r]) simp
qed

text \<open>
  Claim C7 at \<open>iterations = 0\<close> and \<open>runs = 0\<close>: the latency fields and the success rate are
  \<open>0\<close>, but \<open>avgOpsPerSecond\<close> is \<open>Math.round(0 / 0)\<close>, which is \<open>NaN\<close>. The division by
  \<open>runs\<close> has no guard, unlike the divisions next to it. With at least one run and positive
  elapsed times the claim holds (\<open>runBenchmark_no_iterations\<close>).
\<close>

theorem runBenchmark_no_runs_NaN:
  "runBenchmark \<lparr>concurrency = 10, suiteRuns = 3\<rparr> oldestFirst ''x'' 0 0 (failingWith ''boom'') =
     Some \<lparr>name = ''x'', iterations = 0, runs = 0,
           avgOpsPerSecond = NaN, opsPerSecondStdDev = Num 0,
           latency = \<lparr>min_ms = 0, avg = 0, p50 = 0, p95 = 0, p99 = 0, max_ms = 0\<rparr>,
           successRate = 0, errors = []\<rparr>"
  by (simp add: runBenchmark_def initialState_def benchmarkResult_def percentile_def stdDev_def
      signed_inf_def)

subsection \<open>Cached Valkey client\<close>










end
